theory Spec2Isabelle
  imports Complex_Main "HOL-Library.Char_ord" "HOL-Library.List_Lexorder" "HOL-Library.Multiset"
begin

section \<open>Data model\<close>

text \<open>
  The server keeps JavaScript objects; each kind of object is a record here. Several
  kinds share field names (\<open>id\<close>, \<open>url\<close>, \<open>timestamp\<close>), and \<open>id\<close> and \<open>text\<close>
  are taken in Isabelle, so every field carries the initial of its object:
  \<open>c_\<close> for a comment, \<open>u_\<close> for a user, \<open>n_\<close> for a notification, \<open>v_\<close> for a
  vote row. Identifiers are strings (\<open>Date.now().toString()\<close>, Firestore document
  ids), \<open>parentId\<close> is a string or \<open>null\<close>, the counters are JavaScript numbers that
  only ever hold integers, and a \<open>Date\<close> is its number of milliseconds.
\<close>

record comment =
  c_id :: string
  c_url :: string
  c_text :: string
  c_rawText :: string
  c_parentId :: "string option"
  c_authorId :: string
  c_authorName :: string
  c_timestamp :: nat
  c_editedAt :: "nat option"
  c_upvotes :: int
  c_downvotes :: int

record user =
  u_id :: string
  u_fullname :: string
  u_username :: string
  u_email :: string

record notification =
  n_id :: string
  n_userId :: string
  n_type :: string
  n_message :: string
  n_commentId :: string
  n_url :: string
  n_timestamp :: nat
  n_read :: bool

section \<open>Pagination of \<open>GET /api/comments\<close>\<close>

text \<open>
  \<open>parseInt\<close> returns an integer or \<open>NaN\<close>, and \<open>Math.ceil(totalComments / limitNum)\<close>
  is \<open>Infinity\<close> or \<open>NaN\<close> when \<open>limitNum\<close> is zero, so the numbers of this handler are
  reals extended by the three special values. Rounding of doubles and the sign of zero
  are not modelled.
\<close>

datatype number = NaN | PosInf | NegInf | Number real

fun js_div :: "number \<Rightarrow> number \<Rightarrow> number" where
  "js_div (Number x) (Number y) =
     (if y = 0 then (if x = 0 then NaN else if 0 < x then PosInf else NegInf)
      else Number (x / y))"
| "js_div (Number x) PosInf = Number 0"
| "js_div (Number x) NegInf = Number 0"
| "js_div PosInf (Number y) = (if 0 \<le> y then PosInf else NegInf)"
| "js_div NegInf (Number y) = (if 0 \<le> y then NegInf else PosInf)"
| "js_div _ _ = NaN"

fun js_ceil :: "number \<Rightarrow> number" where
  "js_ceil (Number x) = Number (of_int \<lceil>x\<rceil>)"
| "js_ceil n = n"

fun js_less :: "number \<Rightarrow> number \<Rightarrow> bool" where
  "js_less (Number x) (Number y) = (x < y)"
| "js_less (Number x) PosInf = True"
| "js_less NegInf (Number y) = True"
| "js_less NegInf PosInf = True"
| "js_less _ _ = False"

record pagination =
  currentPage :: number
  totalPages :: number
  totalComments :: nat
  hasNextPage :: bool
  hasPrevPage :: bool

text \<open>
  The \<open>pagination\<close> object of the response, from the length of the filtered list and the
  two parsed query parameters (\<open>pageNum > 1\<close> is \<open>1 < pageNum\<close>).
\<close>

definition getPagination :: "nat \<Rightarrow> number \<Rightarrow> number \<Rightarrow> pagination" where
  "getPagination len pageNum limitNum =
     (let pages = js_ceil (js_div (Number (real len)) limitNum)
      in \<lparr>currentPage = pageNum, totalPages = pages, totalComments = len,
          hasNextPage = js_less pageNum pages, hasPrevPage = js_less (Number 1) pageNum\<rparr>)"

section \<open>JavaScript helpers\<close>

text \<open>
  Truthiness of a value that is a string or \<open>null\<close>/\<open>undefined\<close>: only a non-empty
  string is truthy. It decides \<open>parentId || null\<close> and \<open>if (comment.parentId)\<close>.
\<close>

fun truthy :: "string option \<Rightarrow> bool" where
  "truthy None = False"
| "truthy (Some s) = (s \<noteq> [])"

text \<open>
  \<open>Array.prototype.find\<close> is \<^const>\<open>find\<close> of the list library. \<open>findIndex\<close> gives the
  index of the first match or \<open>-1\<close>, and \<open>splice(start, 1)\<close> counts a negative start
  from the end of the array, so \<open>splice(-1, 1)\<close> removes the last element.
\<close>

fun findIndex :: "('a \<Rightarrow> bool) \<Rightarrow> 'a list \<Rightarrow> int" where
  "findIndex P [] = -1"
| "findIndex P (x # xs) =
     (if P x then 0 else (let i = findIndex P xs in if i < 0 then -1 else i + 1))"

definition splice1 :: "int \<Rightarrow> 'a list \<Rightarrow> 'a list" where
  "splice1 start xs =
     (let len = int (length xs);
          actualStart = (if start < 0 then max (len + start) 0 else min start len)
      in take (nat actualStart) xs @ drop (nat actualStart + 1) xs)"

text \<open>
  An object found with \<open>find\<close> and then assigned to is the first match in the array,
  changed in place.
\<close>

fun update_first :: "('a \<Rightarrow> bool) \<Rightarrow> ('a \<Rightarrow> 'a) \<Rightarrow> 'a list \<Rightarrow> 'a list" where
  "update_first P f [] = []"
| "update_first P f (x # xs) = (if P x then f x # xs else x # update_first P f xs)"

text \<open>
  A string is the list of the bytes of its UTF-8 encoding: an ASCII character is one
  byte below 128, and every byte of another character is 128 or above. \<open>\w\<close> of a
  regular expression without the \<open>u\<close> and \<open>i\<close> flags is the ASCII class
  \<open>[A-Za-z0-9_]\<close>, so scanning the bytes finds the matches the code finds.
\<close>

definition isAscii :: "char \<Rightarrow> bool" where
  "isAscii c = (of_char c < (128 :: nat))"

definition isWord :: "char \<Rightarrow> bool" where
  "isWord c = (c \<in> set ''abcdefghijklmnopqrstuvwxyzABCDEFGHIJKLMNOPQRSTUVWXYZ0123456789_'')"

text \<open>
  \<open>String.prototype.toLowerCase\<close> follows the Unicode case mapping. On a string of
  ASCII characters that mapping turns \<open>A\<close> to \<open>Z\<close> into \<open>a\<close> to \<open>z\<close> and leaves every other
  character; this part is written out. On a string with other characters (the Kelvin
  sign becomes \<open>k\<close>, a capital sigma depends on its position) the result is the
  JavaScript runtime's, which is taken as a parameter.
\<close>

definition lowerChar :: "char \<Rightarrow> char" where
  "lowerChar c =
     (case map_of (zip ''ABCDEFGHIJKLMNOPQRSTUVWXYZ'' ''abcdefghijklmnopqrstuvwxyz'') c of
        Some d \<Rightarrow> d | None \<Rightarrow> c)"

definition toLowerCase :: "(string \<Rightarrow> string) \<Rightarrow> string \<Rightarrow> string" where
  "toLowerCase unicodeLower s = (if list_all isAscii s then map lowerChar s else unicodeLower s)"

text \<open>
  A JavaScript number that holds an integer is a double: an integer of magnitude up to
  \<open>2\<^sup>5\<^sup>3\<close> is held exactly, a larger one is rounded to the nearest double, a tie going
  to the even mantissa. \<open>bitlen\<close> is the number of binary digits, \<open>toDouble\<close> the
  rounding; \<open>x + 1\<close> and \<open>x - 1\<close> on such a number are \<open>toDouble (x + 1)\<close> and
  \<open>toDouble (x - 1)\<close>. (A double plus or minus one never rounds to an infinity, so the
  rounding is only ever asked for within the range of the doubles.)
\<close>

function bitlen :: "nat \<Rightarrow> nat" where
  "bitlen n = (if n = 0 then 0 else Suc (bitlen (n div 2)))"
  by pat_completeness auto
termination
  by (relation "measure (\<lambda>n. n)") auto

declare bitlen.simps [simp del]

definition toDouble :: "int \<Rightarrow> int" where
  "toDouble x =
     (let a = nat \<bar>x\<bar>;
          q = 2 ^ (bitlen a - 53);
          r = a mod q;
          lo = a - r;
          m = (if 2 * r < q then lo
               else if q < 2 * r then lo + q
               else if even (lo div q) then lo else lo + q)
      in sgn x * int m)"

text \<open>\<open>Number.prototype.toString\<close> on a non-negative integer: its decimal digits.\<close>

function toString :: "nat \<Rightarrow> string" where
  "toString n =
     (if n < 10 then [''0123456789'' ! n]
      else toString (n div 10) @ [''0123456789'' ! (n mod 10)])"
  by pat_completeness auto
termination
  by (relation "measure (\<lambda>n. n)") auto

declare toString.simps [simp del]

text \<open>
  \<open>extractMentions\<close> runs the global regular expression \<open>/@(\w+)/g\<close> over the text: the
  next match is the leftmost \<open>@\<close> followed by a word character, its capture is the
  longest run of word characters, and the search goes on behind the match.
\<close>

function extractMentions :: "string \<Rightarrow> string list" where
  "extractMentions [] = []"
| "extractMentions (c # cs) =
     (if c = CHR ''@'' \<and> takeWhile isWord cs \<noteq> []
      then takeWhile isWord cs # extractMentions (dropWhile isWord cs)
      else extractMentions cs)"
  by pat_completeness auto
termination
  by (relation "measure length") (auto simp: length_dropWhile_le less_Suc_eq_le)

section \<open>The file-backed server\<close>

text \<open>
  The first server keeps \<open>comments\<close>, \<open>users\<close> and \<open>notifications\<close> in arrays and a
  \<open>votes\<close> map that is written at creation only. A handler takes the state and returns
  the response (an error status or a body), the new state and the events it emitted
  with \<open>io.emit\<close>, in order. What a request reads from outside is in its environment:
  the successive readings of the clock, the successive values of \<open>Math.random()\<close> as
  strings, the identifiers Firestore generates, the sanitising markdown renderer, and
  the runtime's lower-casing of strings that are not ASCII.
\<close>

datatype error = BadRequest | NotFound | Forbidden

datatype event =
    NotificationEvent string notification
  | NewComment string comment
  | CommentVoted string int int
  | CommentEdited string string nat
  | CommentDeleted string

record req_user =
  r_id :: string
  r_username :: string

record env =
  clock :: "nat \<Rightarrow> nat"
  random :: "nat \<Rightarrow> string"
  autoId :: "nat \<Rightarrow> string"
  render :: "string \<Rightarrow> string"
  unicodeLower :: "string \<Rightarrow> string"

record server =
  comments :: "comment list"
  users :: "user list"
  notifications :: "notification list"
  votes :: "string \<rightharpoonup> int \<times> int"

type_synonym 'a response = "(error + 'a) \<times> server \<times> event list"

text \<open>
  The lookup of a mentioned user: the first user whose lower-cased username is the
  lower-cased handle.
\<close>

definition findMentionedUser :: "env \<Rightarrow> user list \<Rightarrow> string \<Rightarrow> user option" where
  "findMentionedUser e us mention =
     find (\<lambda>u. toLowerCase (unicodeLower e) (u_username u)
                = toLowerCase (unicodeLower e) mention) us"

text \<open>
  The notification made for the \<open>j\<close>-th mention that notifies, in a request whose
  comment took the first two clock readings.
\<close>

definition mkNotification ::
  "env \<Rightarrow> nat \<Rightarrow> req_user \<Rightarrow> string \<Rightarrow> string \<Rightarrow> string \<Rightarrow> notification" where
  "mkNotification e j ru userId commentId url =
     \<lparr>n_id = toString (clock e (2 + 2 * j)) @ random e j,
      n_userId = userId,
      n_type = ''mention'',
      n_message = r_username ru @ '' mentioned you in a comment'',
      n_commentId = commentId,
      n_url = url,
      n_timestamp = clock e (3 + 2 * j),
      n_read = False\<rparr>"

text \<open>
  \<open>mentions.forEach\<close>: one pass over the extracted handles, in order, pushing a
  notification and emitting an event for every handle that resolves to a user other
  than the requester.
\<close>

fun mentionLoop ::
  "env \<Rightarrow> req_user \<Rightarrow> user list \<Rightarrow> comment \<Rightarrow> string list \<Rightarrow>
   notification list \<Rightarrow> event list \<Rightarrow> notification list \<times> event list" where
  "mentionLoop e ru us c [] ns evs = (ns, evs)"
| "mentionLoop e ru us c (mention # ms) ns evs =
     (case findMentionedUser e us mention of
        None \<Rightarrow> mentionLoop e ru us c ms ns evs
      | Some mentionedUser \<Rightarrow>
          if u_id mentionedUser \<noteq> r_id ru
          then (let n = mkNotification e (length evs) ru (u_id mentionedUser) (c_id c) (c_url c)
                in mentionLoop e ru us c ms (ns @ [n])
                     (evs @ [NotificationEvent (u_id mentionedUser) n]))
          else mentionLoop e ru us c ms ns evs)"

text \<open>
  \<open>POST /api/auth/register\<close>, as far as the list of users goes: a registration is
  refused when a user has the same email or the same username, compared as they are
  written. The password hash and the token of the response are left out.
\<close>

datatype register_error = MissingField | UserExists

definition registerUser ::
  "env \<Rightarrow> server \<Rightarrow> string \<Rightarrow> string \<Rightarrow> string \<Rightarrow> string \<Rightarrow> (register_error + user) \<times> server" where
  "registerUser e s fullname username email password =
     (if fullname = [] \<or> username = [] \<or> email = [] \<or> password = []
      then (Inl MissingField, s)
      else case find (\<lambda>u. u_email u = email \<or> u_username u = username) (users s) of
        Some existingUser \<Rightarrow> (Inl UserExists, s)
      | None \<Rightarrow>
          (let newUser = \<lparr>u_id = toString (clock e 0), u_fullname = fullname,
                            u_username = username, u_email = email\<rparr>
           in (Inr newUser, s\<lparr>users := users s @ [newUser]\<rparr>)))"

text \<open>\<open>POST /api/comments\<close>.\<close>

definition createComment ::
  "env \<Rightarrow> server \<Rightarrow> req_user \<Rightarrow> string \<Rightarrow> string \<Rightarrow> string option \<Rightarrow> comment response" where
  "createComment e s ru url txt parentId =
     (if url = [] \<or> txt = [] then (Inl BadRequest, s, [])
      else
        let newComment =
              \<lparr>c_id = toString (clock e 0), c_url = url, c_text = render e txt,
               c_rawText = txt,
               c_parentId = (if truthy parentId then parentId else None),
               c_authorId = r_id ru, c_authorName = r_username ru,
               c_timestamp = clock e 1, c_editedAt = None,
               c_upvotes = 0, c_downvotes = 0\<rparr>;
            s1 = s\<lparr>comments := comments s @ [newComment],
                   votes := (votes s)(c_id newComment \<mapsto> (0, 0))\<rparr>;
            (ns, evs) = mentionLoop e ru (users s1) newComment (extractMentions txt)
                          (notifications s1) []
        in (Inr newComment, s1\<lparr>notifications := ns\<rparr>, evs @ [NewComment url newComment]))"

text \<open>
  \<open>POST /api/comments/:id/vote\<close>, the counter variant: the requester plays no part, a
  vote adds one to a counter of the comment (\<open>comment.upvotes++\<close>, on a double) and a
  removal takes one from both, not below zero.
\<close>

definition applyVote :: "string \<Rightarrow> comment \<Rightarrow> comment" where
  "applyVote voteType c =
     (if voteType = ''remove''
      then c\<lparr>c_upvotes := max 0 (toDouble (c_upvotes c - 1)),
             c_downvotes := max 0 (toDouble (c_downvotes c - 1))\<rparr>
      else if voteType = ''up'' then c\<lparr>c_upvotes := toDouble (c_upvotes c + 1)\<rparr>
      else c\<lparr>c_downvotes := toDouble (c_downvotes c + 1)\<rparr>)"

definition vote :: "server \<Rightarrow> string \<Rightarrow> string \<Rightarrow> (int \<times> int) response" where
  "vote s ident voteType =
     (if voteType = [] \<or> voteType \<notin> set [''up'', ''down'', ''remove'']
      then (Inl BadRequest, s, [])
      else case find (\<lambda>c. c_id c = ident) (comments s) of
        None \<Rightarrow> (Inl NotFound, s, [])
      | Some c \<Rightarrow>
          (let c' = applyVote voteType c
           in (Inr (c_upvotes c', c_downvotes c'),
               s\<lparr>comments := update_first (\<lambda>c. c_id c = ident) (applyVote voteType) (comments s)\<rparr>,
               [CommentVoted ident (c_upvotes c') (c_downvotes c')])))"

text \<open>\<open>PUT /api/comments/:id\<close>.\<close>

definition editComment ::
  "env \<Rightarrow> server \<Rightarrow> req_user \<Rightarrow> string \<Rightarrow> string \<Rightarrow> comment response" where
  "editComment e s ru ident txt =
     (if txt = [] then (Inl BadRequest, s, [])
      else case find (\<lambda>c. c_id c = ident) (comments s) of
        None \<Rightarrow> (Inl NotFound, s, [])
      | Some c \<Rightarrow>
          if c_authorId c \<noteq> r_id ru then (Inl Forbidden, s, [])
          else
            (let edit = (\<lambda>c. c\<lparr>c_text := render e txt, c_rawText := txt,
                                c_editedAt := Some (clock e 0)\<rparr>)
             in (Inr (edit c),
                 s\<lparr>comments := update_first (\<lambda>c. c_id c = ident) edit (comments s)\<rparr>,
                 [CommentEdited ident txt (clock e 0)])))"

text \<open>
  \<open>DELETE /api/comments/:id\<close>: the comment is spliced out at its index, then the
  comments whose \<open>parentId\<close> is the deleted identifier are collected and each is spliced
  out at the index of the first comment that has its identifier.
\<close>

definition removeReply :: "comment \<Rightarrow> comment list \<Rightarrow> comment list" where
  "removeReply reply cs = splice1 (findIndex (\<lambda>c. c_id c = c_id reply) cs) cs"

definition deleteComment :: "server \<Rightarrow> req_user \<Rightarrow> string \<Rightarrow> unit response" where
  "deleteComment s ru ident =
     (case find (\<lambda>c. c_id c = ident) (comments s) of
        None \<Rightarrow> (Inl NotFound, s, [])
      | Some c \<Rightarrow>
          if c_authorId c \<noteq> r_id ru then (Inl Forbidden, s, [])
          else
            (let cs1 = splice1 (findIndex (\<lambda>c. c_id c = ident) (comments s)) (comments s);
                 repliesToRemove = filter (\<lambda>c. c_parentId c = Some ident) cs1;
                 cs2 = fold removeReply repliesToRemove cs1
             in (Inr (), s\<lparr>comments := cs2\<rparr>, [CommentDeleted ident])))"

text \<open>
  A run of the server: requests handled one after the other, each with its own
  environment, from a given state.
\<close>

datatype request =
    Create req_user string string "string option"
  | Vote string string
  | Edit req_user string string
  | Delete req_user string

fun handle :: "env \<times> request \<Rightarrow> server \<Rightarrow> server" where
  "handle (e, Create ru url txt parentId) s = fst (snd (createComment e s ru url txt parentId))"
| "handle (e, Vote ident voteType) s = fst (snd (vote s ident voteType))"
| "handle (e, Edit ru ident txt) s = fst (snd (editComment e s ru ident txt))"
| "handle (e, Delete ru ident) s = fst (snd (deleteComment s ru ident))"

definition run :: "server \<Rightarrow> (env \<times> request) list \<Rightarrow> server" where
  "run s reqs = fold handle reqs s"

definition emptyServer :: server where
  "emptyServer = \<lparr>comments = [], users = [], notifications = [], votes = Map.empty\<rparr>"

section \<open>The socket hub\<close>

text \<open>
  The server registers one handler on a connected socket, \<open>joinRoom\<close>, which puts the
  socket into the room named by a URL; there is no other subscription. Every event
  of every handler is sent with \<open>io.emit\<close>.
\<close>

record socket =
  sock_id :: string
  rooms :: "string list"

definition connect :: "string \<Rightarrow> socket list \<Rightarrow> socket list" where
  "connect sid hub = hub @ [\<lparr>sock_id = sid, rooms = []\<rparr>]"

definition joinRoom :: "string \<Rightarrow> string \<Rightarrow> socket list \<Rightarrow> socket list" where
  "joinRoom sid url hub =
     map (\<lambda>s. if sock_id s = sid then s\<lparr>rooms := rooms s @ [url]\<rparr> else s) hub"

definition disconnect :: "string \<Rightarrow> socket list \<Rightarrow> socket list" where
  "disconnect sid hub = filter (\<lambda>s. sock_id s \<noteq> sid) hub"

text \<open>
  Modelled from the spec: \<open>io.emit\<close> belongs to the socket.io library, which is not
  among the sources. Sections 4.5 and 9 of the spec describe what it does in the
  source: a global broadcast, in which every connected client receives every event,
  a notification event being tagged with its target identifier for the client to
  filter on. So an emitted event is delivered once to each connected socket, whatever
  rooms the socket is in.
\<close>

definition io_emit :: "socket list \<Rightarrow> event \<Rightarrow> (string \<times> event) list" where
  "io_emit hub ev = map (\<lambda>s. (sock_id s, ev)) hub"

definition deliveries :: "socket list \<Rightarrow> event list \<Rightarrow> (string \<times> event) list" where
  "deliveries hub evs = concat (map (io_emit hub) evs)"

text \<open>The events a socket receives, in order.\<close>

definition receivedBy :: "socket list \<Rightarrow> event list \<Rightarrow> string \<Rightarrow> event list" where
  "receivedBy hub evs sid = map snd (filter (\<lambda>d. fst d = sid) (deliveries hub evs))"

section \<open>The Firestore server\<close>

text \<open>
  The second server keeps its data in Firestore collections. A collection maps
  document ids to documents; a query returns its documents in the order of their ids,
  so the collections that are queried for a first document are lists of pairs in that
  order, and \<open>add\<close> inserts the new document at the place of its generated id. The
  comments are only looked up by id or deleted, so they are a map. A comment document
  is read as \<open>{ id: doc.id, ...doc.data() }\<close>; the record's \<open>c_id\<close> holds the document id
  and its two counters are not used, the tallies being counted from the vote rows.
\<close>

record vote_row =
  v_commentId :: string
  v_userId :: string
  v_voteType :: string
  v_timestamp :: nat

record firestore =
  commentsCollection :: "string \<rightharpoonup> comment"
  usersCollection :: "(string \<times> user) list"
  votesCollection :: "(string \<times> vote_row) list"
  notificationsCollection :: "(string \<times> notification) list"

type_synonym 'a fs_response = "(error + 'a) \<times> firestore \<times> event list"

definition add_doc :: "string \<Rightarrow> 'a \<Rightarrow> (string \<times> 'a) list \<Rightarrow> (string \<times> 'a) list" where
  "add_doc k d col = insort_key fst (k, d) col"

definition delete_doc :: "string \<Rightarrow> (string \<times> 'a) list \<Rightarrow> (string \<times> 'a) list" where
  "delete_doc k col = filter (\<lambda>(k', d). k' \<noteq> k) col"

definition update_doc :: "string \<Rightarrow> ('a \<Rightarrow> 'a) \<Rightarrow> (string \<times> 'a) list \<Rightarrow> (string \<times> 'a) list" where
  "update_doc k f col = map (\<lambda>(k', d). if k' = k then (k', f d) else (k', d)) col"

text \<open>\<open>getVotesForComment\<close>: the rows of the comment, counted by kind.\<close>

definition getVotesForComment :: "firestore \<Rightarrow> string \<Rightarrow> int \<times> int" where
  "getVotesForComment fs commentId =
     (let rows = filter (\<lambda>(k, v). v_commentId v = commentId) (votesCollection fs)
      in (int (length (filter (\<lambda>(k, v). v_voteType v = ''up'') rows)),
          int (length (filter (\<lambda>(k, v). v_voteType v \<noteq> ''up'' \<and> v_voteType v = ''down'') rows))))"

text \<open>
  \<open>POST /api/comments/:id/vote\<close>, the variant with one row per voter: the first row of
  the requester for the comment is deleted, or set to the requested kind, and a row is
  added when there is none.
\<close>

definition fs_vote ::
  "env \<Rightarrow> firestore \<Rightarrow> req_user \<Rightarrow> string \<Rightarrow> string \<Rightarrow> (int \<times> int) fs_response" where
  "fs_vote e fs ru ident voteType =
     (if voteType = [] \<or> voteType \<notin> set [''up'', ''down'', ''remove'']
      then (Inl BadRequest, fs, [])
      else case commentsCollection fs ident of
        None \<Rightarrow> (Inl NotFound, fs, [])
      | Some commentDoc \<Rightarrow>
          (let existing = filter (\<lambda>(k, v). v_commentId v = ident \<and> v_userId v = r_id ru)
                            (votesCollection fs);
               votes' =
                 (if voteType = ''remove''
                  then (case existing of [] \<Rightarrow> votesCollection fs
                        | (k, v) # _ \<Rightarrow> delete_doc k (votesCollection fs))
                  else (case existing of
                          (k, v) # _ \<Rightarrow>
                            update_doc k (\<lambda>v. v\<lparr>v_voteType := voteType\<rparr>) (votesCollection fs)
                        | [] \<Rightarrow>
                            add_doc (autoId e 0)
                              \<lparr>v_commentId = ident, v_userId = r_id ru,
                               v_voteType = voteType, v_timestamp = clock e 0\<rparr>
                              (votesCollection fs)));
               fs' = fs\<lparr>votesCollection := votes'\<rparr>;
               tally = getVotesForComment fs' ident
           in (Inr tally, fs', [CommentVoted ident (fst tally) (snd tally)])))"

text \<open>
  \<open>DELETE /api/comments/:id\<close>: the document, then the documents whose \<open>parentId\<close> is the
  deleted id, then the vote rows of the deleted comment.
\<close>

definition fs_deleteComment :: "firestore \<Rightarrow> req_user \<Rightarrow> string \<Rightarrow> unit fs_response" where
  "fs_deleteComment fs ru ident =
     (case commentsCollection fs ident of
        None \<Rightarrow> (Inl NotFound, fs, [])
      | Some c \<Rightarrow>
          if c_authorId c \<noteq> r_id ru then (Inl Forbidden, fs, [])
          else
            (let m1 = (commentsCollection fs)(ident := None);
                 m2 = (\<lambda>k. case m1 k of None \<Rightarrow> None
                            | Some d \<Rightarrow> if c_parentId d = Some ident then None else Some d);
                 votes' = filter (\<lambda>(k, v). v_commentId v \<noteq> ident) (votesCollection fs)
             in (Inr (), fs\<lparr>commentsCollection := m2, votesCollection := votes'\<rparr>,
                 [CommentDeleted ident])))"

text \<open>
  \<open>POST /api/comments\<close>: the comment is added under a generated id, then for every
  extracted handle the first user document whose username is the handle is looked up,
  and a notification is added and emitted when it is not the requester's. The
  notification has no \<open>id\<close> property here (its \<open>n_id\<close> is empty): the id is the key of its
  document.
\<close>

definition fs_findMentionedUser :: "(string \<times> user) list \<Rightarrow> string \<Rightarrow> string option" where
  "fs_findMentionedUser us mention =
     map_option fst (find (\<lambda>(k, u). u_username u = mention) us)"

fun fs_mentionLoop ::
  "env \<Rightarrow> req_user \<Rightarrow> (string \<times> user) list \<Rightarrow> comment \<Rightarrow> string list \<Rightarrow>
   (string \<times> notification) list \<Rightarrow> event list \<Rightarrow> (string \<times> notification) list \<times> event list" where
  "fs_mentionLoop e ru us c [] ns evs = (ns, evs)"
| "fs_mentionLoop e ru us c (mention # ms) ns evs =
     (case fs_findMentionedUser us mention of
        None \<Rightarrow> fs_mentionLoop e ru us c ms ns evs
      | Some userId \<Rightarrow>
          if userId \<noteq> r_id ru
          then (let n = \<lparr>n_id = [], n_userId = userId, n_type = ''mention'',
                         n_message = r_username ru @ '' mentioned you in a comment'',
                         n_commentId = c_id c, n_url = c_url c,
                         n_timestamp = clock e (1 + length evs), n_read = False\<rparr>
                in fs_mentionLoop e ru us c ms (add_doc (autoId e (1 + length evs)) n ns)
                     (evs @ [NotificationEvent userId n]))
          else fs_mentionLoop e ru us c ms ns evs)"

definition fs_createComment ::
  "env \<Rightarrow> firestore \<Rightarrow> req_user \<Rightarrow> string \<Rightarrow> string \<Rightarrow> string option \<Rightarrow> comment fs_response" where
  "fs_createComment e fs ru url txt parentId =
     (if url = [] \<or> txt = [] then (Inl BadRequest, fs, [])
      else
        let newComment =
              \<lparr>c_id = autoId e 0, c_url = url, c_text = render e txt, c_rawText = txt,
               c_parentId = (if truthy parentId then parentId else None),
               c_authorId = r_id ru, c_authorName = r_username ru,
               c_timestamp = clock e 0, c_editedAt = None,
               c_upvotes = 0, c_downvotes = 0\<rparr>;
            fs1 = fs\<lparr>commentsCollection := (commentsCollection fs)(autoId e 0 \<mapsto> newComment)\<rparr>;
            (ns, evs) = fs_mentionLoop e ru (usersCollection fs1) newComment
                          (extractMentions txt) (notificationsCollection fs1) []
        in (Inr newComment, fs1\<lparr>notificationsCollection := ns\<rparr>,
            evs @ [NewComment url newComment]))"

section \<open>Building the comment tree\<close>

text \<open>
  \<open>buildCommentTree\<close> creates objects and then mutates them through references that
  are shared between the map, the reply arrays and the result, so it is modelled on
  an explicit heap: a list of objects, the address of an object being its index, and a
  new object being allocated at the end. An object holds the properties of a comment
  and, when it has that property, its \<open>replies\<close> array of references. The argument is
  the array of the addresses of the comments; the function only iterates over it.
\<close>

type_synonym addr = nat

record obj =
  props :: comment
  replies :: "addr list option"

type_synonym heap = "obj list"

text \<open>\<open>{ ...comment, replies: [] }\<close>: a new object with the comment's properties.\<close>

definition spread_node :: "obj \<Rightarrow> obj" where
  "spread_node c = \<lparr>props = props c, replies = Some []\<rparr>"

text \<open>
  The first \<open>forEach\<close>: for every comment a node is allocated and stored in
  \<open>commentMap\<close> under the comment's id; a later comment with the same id replaces the
  entry.
\<close>

fun mapPass :: "addr list \<Rightarrow> heap \<times> (string \<rightharpoonup> addr) \<Rightarrow> heap \<times> (string \<rightharpoonup> addr)" where
  "mapPass [] (h, commentMap) = (h, commentMap)"
| "mapPass (a # as) (h, commentMap) =
     mapPass as (h @ [spread_node (h ! a)], commentMap(c_id (props (h ! a)) \<mapsto> length h))"

text \<open>
  The second \<open>forEach\<close>: a comment with a truthy \<open>parentId\<close> is pushed onto the replies
  of the node stored under that id, or dropped when there is none; any other comment is
  pushed onto \<open>rootComments\<close>. What is pushed is the node stored under the comment's
  own id. The result is \<open>None\<close> where JavaScript would not go on as the code intends:
  a parent without a \<open>replies\<close> array (a \<open>TypeError\<close>) or no node under the comment's
  own id (\<open>undefined\<close> would be pushed); the properties below show that this never
  happens on an array of addresses of the heap.
\<close>

fun treePass ::
  "(string \<rightharpoonup> addr) \<Rightarrow> addr list \<Rightarrow> heap \<times> addr list \<Rightarrow> (heap \<times> addr list) option" where
  "treePass commentMap [] (h, rootComments) = Some (h, rootComments)"
| "treePass commentMap (a # as) (h, rootComments) =
     (let comment = props (h ! a) in
      if truthy (c_parentId comment) then
        (case commentMap (the (c_parentId comment)) of
           None \<Rightarrow> treePass commentMap as (h, rootComments)
         | Some parent \<Rightarrow>
             (case (replies (h ! parent), commentMap (c_id comment)) of
                (Some rs, Some node) \<Rightarrow>
                  treePass commentMap as
                    (h[parent := (h ! parent)\<lparr>replies := Some (rs @ [node])\<rparr>], rootComments)
              | _ \<Rightarrow> None))
      else
        (case commentMap (c_id comment) of
           None \<Rightarrow> None
         | Some node \<Rightarrow> treePass commentMap as (h, rootComments @ [node])))"

definition buildCommentTree :: "heap \<Rightarrow> addr list \<Rightarrow> (heap \<times> addr list) option" where
  "buildCommentTree h input =
     (let (h1, commentMap) = mapPass input (h, Map.empty)
      in treePass commentMap input (h1, []))"

text \<open>
  What the two passes compute, as values. The map after the first pass over comments
  with the identifiers \<open>ks\<close>, their nodes allocated from address \<open>l\<close> on: a later
  identifier overrides an earlier one. And the replies a node at address \<open>p\<close> collects
  in the second pass over the comments \<open>cs\<close>: the nodes of the comments whose truthy
  \<open>parentId\<close> the map sends to \<open>p\<close>, in the order of \<open>cs\<close>.
\<close>

fun idMap :: "string list \<Rightarrow> nat \<Rightarrow> (string \<rightharpoonup> addr)" where
  "idMap [] l = Map.empty"
| "idMap (k # ks) l = [k \<mapsto> l] ++ idMap ks (Suc l)"

definition kidsOf :: "(string \<rightharpoonup> addr) \<Rightarrow> comment list \<Rightarrow> addr \<Rightarrow> addr list" where
  "kidsOf m cs p =
     map (\<lambda>c. the (m (c_id c)))
       (filter (\<lambda>c. truthy (c_parentId c) \<and> m (the (c_parentId c)) = Some p) cs)"

text \<open>The comments an array of addresses holds, as values.\<close>

definition inputComments :: "heap \<Rightarrow> addr list \<Rightarrow> comment list" where
  "inputComments h input = map (\<lambda>a. props (h ! a)) input"

text \<open>
  The forest that is returned is read level by level: the roots, their replies, the
  replies of those, and so on. \<open>countReachable\<close> counts the nodes of all levels; it
  gives \<open>None\<close> when the fuel is used up before a level is empty.
\<close>

definition repliesOf :: "heap \<Rightarrow> addr \<Rightarrow> addr list" where
  "repliesOf h a = (case replies (h ! a) of None \<Rightarrow> [] | Some rs \<Rightarrow> rs)"

definition nextLevel :: "heap \<Rightarrow> addr list \<Rightarrow> addr list" where
  "nextLevel h as = concat (map (repliesOf h) as)"

fun countReachable :: "nat \<Rightarrow> heap \<Rightarrow> addr list \<Rightarrow> nat option" where
  "countReachable fuel h [] = Some 0"
| "countReachable 0 h (a # as) = None"
| "countReachable (Suc fuel) h (a # as) =
     map_option (\<lambda>k. length (a # as) + k) (countReachable fuel h (nextLevel h (a # as)))"

text \<open>
  The response serialises the forest; \<open>toTree\<close> reads the tree below a node, with
  fuel for the depth.
\<close>

datatype tree = Node comment "tree list"

fun toTree :: "nat \<Rightarrow> heap \<Rightarrow> addr \<Rightarrow> tree option" where
  "toTree 0 h a = None"
| "toTree (Suc fuel) h a =
     map_option (Node (props (h ! a))) (those (map (toTree fuel h) (repliesOf h a)))"

section \<open>Notions the properties are stated with\<close>

text \<open>
  The recipients a list of handles notifies under the file-backed lookup, one entry for
  every occurrence of a handle that resolves to a user other than the author, in the
  order of the occurrences; and the same under the Firestore lookup.
\<close>

definition recipientsOf :: "env \<Rightarrow> user list \<Rightarrow> string \<Rightarrow> string list \<Rightarrow> string list" where
  "recipientsOf e us authorId ms =
     concat (map (\<lambda>m. case findMentionedUser e us m of
                          None \<Rightarrow> []
                        | Some u \<Rightarrow> if u_id u \<noteq> authorId then [u_id u] else []) ms)"

definition fs_recipientsOf :: "(string \<times> user) list \<Rightarrow> string \<Rightarrow> string list \<Rightarrow> string list" where
  "fs_recipientsOf us authorId ms =
     concat (map (\<lambda>m. case fs_findMentionedUser us m of
                          None \<Rightarrow> []
                        | Some userId \<Rightarrow> if userId \<noteq> authorId then [userId] else []) ms)"

text \<open>The recipients of the notification events in a list of emitted events, in order.\<close>

fun notified :: "event list \<Rightarrow> string list" where
  "notified [] = []"
| "notified (NotificationEvent userId n # evs) = userId # notified evs"
| "notified (ev # evs) = notified evs"

text \<open>
  Two characters are the same letter when they are equal or one is an upper-case
  ASCII letter and the other its lower-case form; two strings are the same up to case
  when they have the same letters, place by place.
\<close>

definition sameLetter :: "char \<Rightarrow> char \<Rightarrow> bool" where
  "sameLetter c d =
     (c = d
      \<or> (c, d) \<in> set (zip ''ABCDEFGHIJKLMNOPQRSTUVWXYZ'' ''abcdefghijklmnopqrstuvwxyz'')
      \<or> (d, c) \<in> set (zip ''ABCDEFGHIJKLMNOPQRSTUVWXYZ'' ''abcdefghijklmnopqrstuvwxyz''))"

definition sameUpToCase :: "string \<Rightarrow> string \<Rightarrow> bool" where
  "sameUpToCase x y = list_all2 sameLetter x y"

text \<open>
  A vote of kind \<open>up\<close> or \<open>down\<close> counted once on a comment: its counter of that kind is
  one more.
\<close>

definition counted :: "string \<Rightarrow> comment \<Rightarrow> comment" where
  "counted voteType c =
     (if voteType = ''up'' then c\<lparr>c_upvotes := c_upvotes c + 1\<rparr>
      else c\<lparr>c_downvotes := c_downvotes c + 1\<rparr>)"

text \<open>
  The only subscription a socket can make is to join a room, so the widest reading of
  ``subscribed as recipient \<open>r\<close>'' is: connected and in a room named \<open>r\<close>.
\<close>

definition subscribedAs :: "socket list \<Rightarrow> string \<Rightarrow> string \<Rightarrow> bool" where
  "subscribedAs hub sid r = (\<exists>s\<in>set hub. sock_id s = sid \<and> r \<in> set (rooms s))"

text \<open>The tallies stored in the comments of the file-backed server are not negative.\<close>

definition tallies_nonneg :: "server \<Rightarrow> bool" where
  "tallies_nonneg s = (\<forall>c\<in>set (comments s). 0 \<le> c_upvotes c \<and> 0 \<le> c_downvotes c)"

text \<open>
  A comment of the input counts for the claim when its parent, if it has one, is in
  the input too.
\<close>

definition parentPresent :: "comment list \<Rightarrow> comment \<Rightarrow> bool" where
  "parentPresent cs c =
     (\<not> truthy (c_parentId c) \<or> the (c_parentId c) \<in> c_id ` set cs)"

text \<open>
  The comments of the input at depth \<open>d\<close>: depth zero are those without a parent, depth
  \<open>d + 1\<close> those whose parent is a comment at depth \<open>d\<close>. A comment is attached when it
  has a depth, that is, when the chain of its parents stays in the input and ends at a
  comment without a parent.
\<close>

fun level :: "comment list \<Rightarrow> nat \<Rightarrow> comment list" where
  "level cs 0 = filter (\<lambda>c. \<not> truthy (c_parentId c)) cs"
| "level cs (Suc d) =
     filter (\<lambda>c. truthy (c_parentId c) \<and> the (c_parentId c) \<in> c_id ` set (level cs d)) cs"

definition attached :: "comment list \<Rightarrow> comment \<Rightarrow> bool" where
  "attached cs c = list_ex (\<lambda>d. c \<in> set (level cs d)) [0..<length cs]"

section \<open>Example data\<close>

text \<open>
  In the examples the runtime's lower-casing knows one character that is not ASCII,
  the Kelvin sign (U+212A, the bytes \<open>E2 84 AA\<close>), which it turns into \<open>k\<close>.
\<close>

definition kelvin :: string where
  "kelvin = [CHR 0xE2, CHR 0x84, CHR 0xAA]"

definition ex_env :: env where
  "ex_env = \<lparr>clock = (\<lambda>k. 1000 + k), random = (\<lambda>k. ''0.5''),
             autoId = (\<lambda>k. ''doc'' @ toString k), render = (\<lambda>t. ''<p>'' @ t @ ''</p>''),
             unicodeLower = (\<lambda>s. if s = kelvin then ''k'' else s)\<rparr>"

definition alice :: req_user where
  "alice = \<lparr>r_id = ''1'', r_username = ''alice''\<rparr>"

definition ex_users :: "user list" where
  "ex_users =
     [\<lparr>u_id = ''1'', u_fullname = ''Alice A'', u_username = ''alice'', u_email = ''alice@example.com''\<rparr>,
      \<lparr>u_id = ''2'', u_fullname = ''Bob B'', u_username = ''Bob'', u_email = ''bob@example.com''\<rparr>]"

definition ex_server :: server where
  "ex_server = \<lparr>comments = [], users = ex_users, notifications = [], votes = Map.empty\<rparr>"

text \<open>A thread of alice's: \<open>A\<close>, its reply \<open>B\<close>, and \<open>C\<close>, a reply to \<open>B\<close>.\<close>

definition ex_comment :: "string \<Rightarrow> string option \<Rightarrow> comment" where
  "ex_comment ident parent =
     \<lparr>c_id = ident, c_url = ''t'', c_text = ''<p>x</p>'', c_rawText = ''x'',
      c_parentId = parent, c_authorId = ''1'', c_authorName = ''alice'',
      c_timestamp = 1000, c_editedAt = None, c_upvotes = 0, c_downvotes = 0\<rparr>"

definition ex_thread :: "comment list" where
  "ex_thread = [ex_comment ''A'' None, ex_comment ''B'' (Some ''A''), ex_comment ''C'' (Some ''B'')]"

definition ex_thread_server :: server where
  "ex_thread_server = \<lparr>comments = ex_thread, users = ex_users, notifications = [], votes = Map.empty\<rparr>"

definition ex_firestore :: firestore where
  "ex_firestore =
     \<lparr>commentsCollection =
        [''A'' \<mapsto> ex_comment ''A'' None, ''B'' \<mapsto> ex_comment ''B'' (Some ''A''),
         ''C'' \<mapsto> ex_comment ''C'' (Some ''B'')],
      usersCollection = map (\<lambda>u. (u_id u, u)) ex_users,
      votesCollection = [],
      notificationsCollection = []\<rparr>"

text \<open>
  Two registrations whose usernames differ only in case, and one with the Kelvin sign
  for a username.
\<close>

definition ex_twins :: server where
  "ex_twins =
     snd (registerUser (ex_env\<lparr>clock := (\<lambda>k. 3)\<rparr>)
       (snd (registerUser (ex_env\<lparr>clock := (\<lambda>k. 2)\<rparr>) emptyServer
          ''Bob B'' ''Bob'' ''bob@example.com'' ''secret''))
       ''Bob C'' ''bob'' ''bobc@example.com'' ''secret'')"

definition ex_kelvin_users :: "user list" where
  "ex_kelvin_users =
     [\<lparr>u_id = ''4'', u_fullname = ''Lord K'', u_username = kelvin, u_email = ''k@example.com''\<rparr>]"

text \<open>Two connected sockets, the first in the room of the page \<open>t\<close>.\<close>

definition ex_hub :: "socket list" where
  "ex_hub = joinRoom ''s1'' ''t'' (connect ''s2'' (connect ''s1'' []))"

text \<open>Alice posts a comment; it is voted down once and the vote is removed twice.\<close>

definition ex_requests :: "(env \<times> request) list" where
  "ex_requests =
     [(ex_env, Create alice ''t'' ''hello'' None),
      (ex_env, Vote ''1000'' ''down''),
      (ex_env, Vote ''1000'' ''remove''),
      (ex_env, Vote ''1000'' ''remove'')]"

text \<open>
  Heaps that hold comments as they come from the store: a page with the reply \<open>C\<close> and
  its parent \<open>B\<close>, whose own parent \<open>A\<close> is on another page; and the whole thread.
\<close>

definition ex_page :: heap where
  "ex_page = [\<lparr>props = ex_comment ''C'' (Some ''B''), replies = None\<rparr>,
              \<lparr>props = ex_comment ''B'' (Some ''A''), replies = None\<rparr>]"

definition ex_thread_heap :: heap where
  "ex_thread_heap = map (\<lambda>c. \<lparr>props = c, replies = None\<rparr>) ex_thread"

section \<open>Properties\<close>

subsection \<open>Pagination metadata\<close>

text \<open>
  C6. For a positive integer limit and an integer page, the metadata is
  \<open>totalPages = \<lceil>totalComments / limit\<rceil>\<close>, \<open>hasNextPage = (currentPage < totalPages)\<close>
  and \<open>hasPrevPage = (currentPage > 1)\<close>. With seven comments and a limit of three there
  are three pages; page one has a next page and no previous page, page three has no
  next page.
\<close>

theorem pagination_metadata:
  "(0 < limit \<longrightarrow>
      getPagination len (Number (of_int page)) (Number (of_int limit)) =
        \<lparr>currentPage = Number (of_int page),
         totalPages = Number (of_int \<lceil>real len / of_int limit\<rceil>),
         totalComments = len,
         hasNextPage = (page < \<lceil>real len / of_int limit\<rceil>),
         hasPrevPage = (1 < page)\<rparr>)
   \<and> totalPages (getPagination 7 (Number 1) (Number 3)) = Number 3
   \<and> hasNextPage (getPagination 7 (Number 1) (Number 3))
   \<and> \<not> hasPrevPage (getPagination 7 (Number 1) (Number 3))
   \<and> \<not> hasNextPage (getPagination 7 (Number 3) (Number 3))"
  by (simp add: getPagination_def Let_def)

theorem pagination_metadata_witness:
  "(0::int) < 3
   \<and> getPagination 7 (Number (of_int 2)) (Number (of_int 3)) =
        \<lparr>currentPage = Number 2, totalPages = Number 3, totalComments = 7,
         hasNextPage = True, hasPrevPage = True\<rparr>"
  using pagination_metadata [of 3 7 2] by simp

subsection \<open>Library facts about the helpers\<close>

lemma find_None_iff': "(find P xs = None) = (\<forall>x\<in>set xs. \<not> P x)"
  by (induction xs) auto

lemma find_Some_mem: "find P xs = Some x \<Longrightarrow> x \<in> set xs \<and> P x"
  by (induction xs) (auto split: if_splits)

lemma findIndex_nonneg:
  "\<exists>x\<in>set xs. P x \<Longrightarrow> findIndex P xs = int (length (takeWhile (\<lambda>x. \<not> P x) xs))"
proof (induction xs)
  case Nil
  then show ?case by simp
next
  case (Cons a xs)
  show ?case
  proof (cases "P a")
    case True
    then show ?thesis by simp
  next
    case False
    with Cons.prems have "\<exists>x\<in>set xs. P x" by auto
    then have "findIndex P xs = int (length (takeWhile (\<lambda>x. \<not> P x) xs))" by (rule Cons.IH)
    with False show ?thesis by (simp add: Let_def)
  qed
qed

lemma set_splice1: "set (splice1 i xs) \<subseteq> set xs"
  by (auto simp: splice1_def Let_def dest: in_set_takeD in_set_dropD)

lemma set_fold_removeReply: "set (fold removeReply rs cs) \<subseteq> set cs"
proof (induction rs arbitrary: cs)
  case Nil
  show ?case by simp
next
  case (Cons r rs)
  have "set (fold removeReply rs (removeReply r cs)) \<subseteq> set (removeReply r cs)"
    by (rule Cons.IH)
  also have "\<dots> \<subseteq> set cs"
    unfolding removeReply_def by (rule set_splice1)
  finally show ?case by simp
qed

lemma update_first_pres:
  "\<forall>x\<in>set xs. Q x \<Longrightarrow> (\<And>x. Q x \<Longrightarrow> Q (f x)) \<Longrightarrow> \<forall>x\<in>set (update_first P f xs). Q x"
  by (induction xs) auto

text \<open>Updating the first match, once and twice.\<close>

lemma find_update_first:
  "(\<And>x. P (f x) = P x) \<Longrightarrow> find P (update_first P f xs) = map_option f (find P xs)"
  by (induction xs) auto

lemma update_first_cong:
  "find P xs = Some c \<Longrightarrow> f c = g c \<Longrightarrow> update_first P f xs = update_first P g xs"
  by (induction xs) (auto split: if_splits)

lemma update_first_twice:
  "(\<And>x. P (f x) = P x) \<Longrightarrow> update_first P g (update_first P f xs) = update_first P (g \<circ> f) xs"
  by (induction xs) auto

lemma filter_distinct_key:
  "distinct (map f xs) \<Longrightarrow> x \<in> set xs \<Longrightarrow> filter (\<lambda>y. f y = f x) xs = [x]"
proof (induction xs)
  case Nil
  then show ?case by simp
next
  case (Cons a xs)
  show ?case
  proof (cases "a = x")
    case True
    from Cons.prems(1) have "\<forall>y\<in>set xs. f y \<noteq> f x" unfolding True by (auto simp: image_iff)
    then have "filter (\<lambda>y. f y = f x) xs = []" by (simp add: filter_empty_conv)
    with True show ?thesis by simp
  next
    case False
    with Cons.prems have "x \<in> set xs" "distinct (map f xs)" "f a \<noteq> f x" by auto
    with Cons.IH show ?thesis by simp
  qed
qed

text \<open>
  Rounding to a double: an integer of magnitude up to \<open>2\<^sup>5\<^sup>3\<close> is kept, and \<open>2\<^sup>5\<^sup>3 + 1\<close> is
  rounded back to \<open>2\<^sup>5\<^sup>3\<close>.
\<close>

lemma bitlen_le: "n < 2 ^ k \<Longrightarrow> bitlen n \<le> k"
proof (induction k arbitrary: n)
  case 0
  then show ?case by (simp add: bitlen.simps)
next
  case (Suc k)
  show ?case
  proof (cases "n = 0")
    case True
    then show ?thesis by (simp add: bitlen.simps)
  next
    case False
    from Suc.prems have "n div 2 < 2 ^ k" by simp
    then have "bitlen (n div 2) \<le> k" by (rule Suc.IH)
    with False show ?thesis by (subst bitlen.simps) simp
  qed
qed

lemma bitlen_pow2: "bitlen (2 ^ k) = Suc k"
proof (induction k)
  case 0
  show ?case by (simp add: bitlen.simps)
next
  case (Suc k)
  then show ?case by (subst bitlen.simps) simp
qed

lemma toDouble_nat:
  assumes "a \<le> 2 ^ 53"
  shows "(let q = 2 ^ (bitlen a - 53); r = a mod q; lo = a - r
          in if 2 * r < q then lo else if q < 2 * r then lo + q
             else if even (lo div q) then lo else lo + q) = a"
proof (cases "a = 2 ^ 53")
  case True
  have "bitlen a - 53 = 1" unfolding True bitlen_pow2 by simp
  moreover have "a mod 2 = 0" unfolding True by simp
  ultimately show ?thesis by (simp add: Let_def)
next
  case False
  with assms have "a < 2 ^ 53" by simp
  then have "bitlen a \<le> 53" by (rule bitlen_le)
  then have "bitlen a - 53 = 0" by simp
  then show ?thesis by (simp add: Let_def)
qed

lemma toDouble_exact:
  assumes "\<bar>x\<bar> \<le> 2 ^ 53"
  shows "toDouble x = x"
proof -
  from assms have "nat \<bar>x\<bar> \<le> 2 ^ 53" by (simp add: nat_le_iff)
  from toDouble_nat [OF this] have "toDouble x = sgn x * int (nat \<bar>x\<bar>)"
    unfolding toDouble_def Let_def by simp
  then show ?thesis by (simp add: mult_sgn_abs)
qed

lemma toDouble_nonneg: "0 \<le> x \<Longrightarrow> 0 \<le> toDouble x"
  unfolding toDouble_def Let_def by (simp add: sgn_if)

lemma bitlen_eq: "2 ^ k \<le> n \<Longrightarrow> n < 2 ^ Suc k \<Longrightarrow> bitlen n = Suc k"
proof (induction k arbitrary: n)
  case 0
  then have "n = 1" by simp
  then show ?case by (simp add: bitlen.simps)
next
  case (Suc k)
  from Suc.prems have "2 ^ k \<le> n div 2" "n div 2 < 2 ^ Suc k" by simp_all
  then have "bitlen (n div 2) = Suc k" by (rule Suc.IH)
  moreover from Suc.prems have "n \<noteq> 0" by auto
  ultimately show ?case by (subst bitlen.simps) simp
qed

lemma toDouble_tie: "toDouble (2 ^ 53 + 1) = 2 ^ 53"
proof -
  have b: "bitlen (2 ^ 53 + 1) = 54"
    using bitlen_eq [of 53 "2 ^ 53 + 1"] by simp
  have n: "nat \<bar>2 ^ 53 + 1 :: int\<bar> = 2 ^ 53 + 1" by (simp add: nat_add_distrib nat_power_eq)
  show ?thesis
    unfolding toDouble_def n b Let_def by simp
qed

text \<open>
  Lower-casing ASCII strings: two of them have the same lower-casing exactly when they
  are the same up to case. The handles that \<open>extractMentions\<close> finds are non-empty
  strings of word characters, hence ASCII.
\<close>

lemma table_lookup:
  assumes dk: "distinct (map fst T)" and dv: "distinct (map snd T)"
    and disj: "set (map snd T) \<inter> set (map fst T) = {}"
  shows "((case map_of T c of Some x \<Rightarrow> x | None \<Rightarrow> c) = (case map_of T d of Some x \<Rightarrow> x | None \<Rightarrow> d))
          = (c = d \<or> (c, d) \<in> set T \<or> (d, c) \<in> set T)"
proof -
  have some: "(map_of T a = Some b) = ((a, b) \<in> set T)" for a b
    using dk by simp
  have inj: "a = a'" if "(a, b) \<in> set T" "(a', b) \<in> set T" for a a' b
  proof -
    from dv have "inj_on snd (set T)" by (simp add: distinct_map)
    from inj_onD [OF this _ that] show ?thesis by simp
  qed
  have nokey: "map_of T b = None" if "(a, b) \<in> set T" for a b
  proof -
    from that have "b \<in> set (map snd T)" by force
    with disj have "b \<notin> set (map fst T)" by blast
    then show ?thesis by (simp add: map_of_eq_None_iff)
  qed
  show ?thesis
  proof (cases "map_of T c")
    case None
    note cN = None
    show ?thesis
    proof (cases "map_of T d")
      case None
      with cN show ?thesis using some [of c d] some [of d c] by auto
    next
      case (Some d')
      with cN show ?thesis using some [of d c] some [of c d] some [of d d'] by auto
    qed
  next
    case (Some c')
    note cS = Some
    show ?thesis
    proof (cases "map_of T d")
      case None
      with cS show ?thesis using some [of c d] some [of d c] by auto
    next
      case (Some d')
      have "(c, c') \<in> set T" "(d, d') \<in> set T" using cS Some some by auto
      moreover have "(c, d) \<notin> set T" using nokey [of c d] Some by auto
      moreover have "(d, c) \<notin> set T" using nokey [of d c] cS by auto
      ultimately show ?thesis using cS Some inj [of c c' d] by auto
    qed
  qed
qed

lemma sameLetter_iff: "(lowerChar c = lowerChar d) = sameLetter c d"
  unfolding lowerChar_def sameLetter_def
  by (rule table_lookup) simp_all

lemma map_eq_iff_list_all2:
  "(map f xs = map f ys) = list_all2 (\<lambda>c d. f c = f d) xs ys"
proof (induction xs arbitrary: ys)
  case Nil
  then show ?case by simp
next
  case (Cons x xs)
  then show ?case by (cases ys) simp_all
qed

lemma toLowerCase_ascii:
  assumes "list_all isAscii x" "list_all isAscii y"
  shows "(toLowerCase f x = toLowerCase f y) = sameUpToCase x y"
proof -
  have "(map lowerChar x = map lowerChar y) = list_all2 (\<lambda>c d. lowerChar c = lowerChar d) x y"
    by (rule map_eq_iff_list_all2)
  with assms show ?thesis
    by (simp add: toLowerCase_def sameUpToCase_def sameLetter_iff)
qed

lemma isWord_ascii: "isWord c \<Longrightarrow> isAscii c"
  by (auto simp: isWord_def isAscii_def)

lemma extractMentions_words:
  "m \<in> set (extractMentions s) \<Longrightarrow> m \<noteq> [] \<and> list_all isWord m"
proof (induction s rule: extractMentions.induct)
  case 1
  then show ?case by simp
next
  case (2 c cs)
  then show ?case
    by (auto simp: list_all_iff split: if_splits dest: set_takeWhileD)
qed

text \<open>The definitions a concrete run of the examples unfolds.\<close>

lemmas example_defs =
  createComment_def vote_def deleteComment_def editComment_def ex_env_def alice_def
  ex_users_def ex_server_def ex_comment_def ex_thread_def ex_thread_server_def
  ex_firestore_def findMentionedUser_def toLowerCase_def lowerChar_def isAscii_def isWord_def
  mkNotification_def Let_def toString.simps removeReply_def splice1_def applyVote_def
  toDouble_exact
  fs_vote_def fs_deleteComment_def fs_createComment_def fs_findMentionedUser_def
  add_doc_def update_doc_def delete_doc_def getVotesForComment_def

subsection \<open>Mentions and notifications\<close>

lemma mentionLoop_char:
  "mentionLoop e ru us c ms ns evs = (ns', evs') \<Longrightarrow>
   \<exists>new. ns' = ns @ new \<and> evs' = evs @ map (\<lambda>n. NotificationEvent (n_userId n) n) new
      \<and> map n_userId new = recipientsOf e us (r_id ru) ms"
proof (induction ms arbitrary: ns evs)
  case Nil
  then show ?case by (simp add: recipientsOf_def)
next
  case (Cons m ms)
  show ?case
  proof (cases "findMentionedUser e us m")
    case None
    with Cons.prems have "mentionLoop e ru us c ms ns evs = (ns', evs')" by simp
    from Cons.IH [OF this] None show ?thesis by (simp add: recipientsOf_def)
  next
    case (Some u)
    show ?thesis
    proof (cases "u_id u = r_id ru")
      case True
      with Some Cons.prems have "mentionLoop e ru us c ms ns evs = (ns', evs')" by simp
      from Cons.IH [OF this] Some True show ?thesis by (simp add: recipientsOf_def)
    next
      case False
      define n where "n = mkNotification e (length evs) ru (u_id u) (c_id c) (c_url c)"
      from Some False Cons.prems
      have "mentionLoop e ru us c ms (ns @ [n]) (evs @ [NotificationEvent (u_id u) n]) = (ns', evs')"
        by (simp add: Let_def n_def)
      from Cons.IH [OF this] obtain new where
        new: "ns' = (ns @ [n]) @ new"
        "evs' = (evs @ [NotificationEvent (u_id u) n]) @ map (\<lambda>n. NotificationEvent (n_userId n) n) new"
        "map n_userId new = recipientsOf e us (r_id ru) ms"
        by blast
      have nu: "n_userId n = u_id u" by (simp add: n_def mkNotification_def)
      show ?thesis
        using new Some False nu by (intro exI [of _ "n # new"]) (simp add: recipientsOf_def)
    qed
  qed
qed

lemma notified_append: "notified (xs @ ys) = notified xs @ notified ys"
  by (induction xs rule: notified.induct) auto

lemma notified_map: "notified (map (\<lambda>n. NotificationEvent (n_userId n) n) ns) = map n_userId ns"
  by (induction ns) auto

lemma createComment_events:
  assumes "url \<noteq> []" "txt \<noteq> []"
  shows "\<exists>new c. notifications (fst (snd (createComment e s ru url txt parentId)))
                    = notifications s @ new
           \<and> snd (snd (createComment e s ru url txt parentId))
               = map (\<lambda>n. NotificationEvent (n_userId n) n) new @ [NewComment url c]
           \<and> map n_userId new = recipientsOf e (users s) (r_id ru) (extractMentions txt)"
proof -
  define c where "c = \<lparr>c_id = toString (clock e 0), c_url = url, c_text = render e txt,
               c_rawText = txt,
               c_parentId = (if truthy parentId then parentId else None),
               c_authorId = r_id ru, c_authorName = r_username ru,
               c_timestamp = clock e 1, c_editedAt = None,
               c_upvotes = 0, c_downvotes = 0\<rparr>"
  obtain ns' evs' where
    ml: "mentionLoop e ru (users s) c (extractMentions txt) (notifications s) [] = (ns', evs')"
    by (cases "mentionLoop e ru (users s) c (extractMentions txt) (notifications s) []") blast
  from assms have cc: "createComment e s ru url txt parentId =
      (Inr c, s\<lparr>comments := comments s @ [c], votes := (votes s)(c_id c \<mapsto> (0, 0)),
                notifications := ns'\<rparr>,
       evs' @ [NewComment url c])"
    unfolding createComment_def c_def [symmetric] Let_def by (simp add: ml)
  from mentionLoop_char [OF ml] obtain new where
    new: "ns' = notifications s @ new" "evs' = map (\<lambda>n. NotificationEvent (n_userId n) n) new"
      "map n_userId new = recipientsOf e (users s) (r_id ru) (extractMentions txt)"
    by auto
  show ?thesis unfolding cc using new by auto
qed

lemma createComment_notifications:
  assumes "url \<noteq> []" "txt \<noteq> []"
  shows "map n_userId (drop (length (notifications s))
             (notifications (fst (snd (createComment e s ru url txt parentId)))))
           = recipientsOf e (users s) (r_id ru) (extractMentions txt)
       \<and> take (length (notifications s))
             (notifications (fst (snd (createComment e s ru url txt parentId))))
           = notifications s
       \<and> notified (snd (snd (createComment e s ru url txt parentId)))
           = recipientsOf e (users s) (r_id ru) (extractMentions txt)"
proof -
  from createComment_events [OF assms, of e s ru parentId] obtain new c where
    "notifications (fst (snd (createComment e s ru url txt parentId))) = notifications s @ new"
    "snd (snd (createComment e s ru url txt parentId))
       = map (\<lambda>n. NotificationEvent (n_userId n) n) new @ [NewComment url c]"
    "map n_userId new = recipientsOf e (users s) (r_id ru) (extractMentions txt)"
    by blast
  then show ?thesis by (simp add: notified_append notified_map)
qed

lemma fs_mentionLoop_char:
  "fs_mentionLoop e ru us c ms ns evs = (ns', evs') \<Longrightarrow>
   \<exists>new. mset ns' = mset ns + mset new
      \<and> evs' = evs @ map (\<lambda>(k, n). NotificationEvent (n_userId n) n) new
      \<and> map (\<lambda>(k, n). n_userId n) new = fs_recipientsOf us (r_id ru) ms"
proof (induction ms arbitrary: ns evs)
  case Nil
  then show ?case by (simp add: fs_recipientsOf_def)
next
  case (Cons m ms)
  show ?case
  proof (cases "fs_findMentionedUser us m")
    case None
    with Cons.prems have "fs_mentionLoop e ru us c ms ns evs = (ns', evs')" by simp
    from Cons.IH [OF this] None show ?thesis by (simp add: fs_recipientsOf_def)
  next
    case (Some userId)
    show ?thesis
    proof (cases "userId = r_id ru")
      case True
      with Some Cons.prems have "fs_mentionLoop e ru us c ms ns evs = (ns', evs')" by simp
      from Cons.IH [OF this] Some True show ?thesis by (simp add: fs_recipientsOf_def)
    next
      case False
      define n where "n = \<lparr>n_id = [], n_userId = userId, n_type = ''mention'',
                         n_message = r_username ru @ '' mentioned you in a comment'',
                         n_commentId = c_id c, n_url = c_url c,
                         n_timestamp = clock e (1 + length evs), n_read = False\<rparr>"
      define k where "k = autoId e (1 + length evs)"
      from Some False Cons.prems
      have "fs_mentionLoop e ru us c ms (add_doc k n ns)
              (evs @ [NotificationEvent userId n]) = (ns', evs')"
        by (simp add: Let_def n_def k_def)
      from Cons.IH [OF this] obtain new where
        new: "mset ns' = mset (add_doc k n ns) + mset new"
        "evs' = (evs @ [NotificationEvent userId n]) @ map (\<lambda>(k, n). NotificationEvent (n_userId n) n) new"
        "map (\<lambda>(k, n). n_userId n) new = fs_recipientsOf us (r_id ru) ms"
        by blast
      have nu: "n_userId n = userId" by (simp add: n_def)
      show ?thesis
        using new Some False nu
        by (intro exI [of _ "(k, n) # new"]) (simp add: fs_recipientsOf_def add_doc_def)
    qed
  qed
qed

lemma notified_map_fs:
  "notified (map (\<lambda>(k, n). NotificationEvent (n_userId n) n) ns) = map (\<lambda>(k, n). n_userId n) ns"
  by (induction ns) auto

lemma fs_createComment_events:
  assumes "url \<noteq> []" "txt \<noteq> []"
  shows "\<exists>new c. mset (notificationsCollection (fst (snd (fs_createComment e fs ru url txt parentId))))
                    = mset (notificationsCollection fs) + mset new
           \<and> snd (snd (fs_createComment e fs ru url txt parentId))
               = map (\<lambda>(k, n). NotificationEvent (n_userId n) n) new @ [NewComment url c]
           \<and> map (\<lambda>(k, n). n_userId n) new
               = fs_recipientsOf (usersCollection fs) (r_id ru) (extractMentions txt)"
proof -
  define c where "c = \<lparr>c_id = autoId e 0, c_url = url, c_text = render e txt, c_rawText = txt,
               c_parentId = (if truthy parentId then parentId else None),
               c_authorId = r_id ru, c_authorName = r_username ru,
               c_timestamp = clock e 0, c_editedAt = None,
               c_upvotes = 0, c_downvotes = 0\<rparr>"
  obtain ns' evs' where
    ml: "fs_mentionLoop e ru (usersCollection fs) c (extractMentions txt)
           (notificationsCollection fs) [] = (ns', evs')"
    by (cases "fs_mentionLoop e ru (usersCollection fs) c (extractMentions txt)
           (notificationsCollection fs) []") blast
  from assms have cc: "fs_createComment e fs ru url txt parentId =
      (Inr c, fs\<lparr>commentsCollection := (commentsCollection fs)(autoId e 0 \<mapsto> c),
                 notificationsCollection := ns'\<rparr>,
       evs' @ [NewComment url c])"
    unfolding fs_createComment_def c_def [symmetric] Let_def by (simp add: ml)
  from fs_mentionLoop_char [OF ml] obtain new where
    "mset ns' = mset (notificationsCollection fs) + mset new"
    "evs' = map (\<lambda>(k, n). NotificationEvent (n_userId n) n) new"
    "map (\<lambda>(k, n). n_userId n) new
       = fs_recipientsOf (usersCollection fs) (r_id ru) (extractMentions txt)"
    by auto
  then show ?thesis unfolding cc by auto
qed

lemma fs_createComment_notifications:
  assumes "url \<noteq> []" "txt \<noteq> []"
  shows "notified (snd (snd (fs_createComment e fs ru url txt parentId)))
           = fs_recipientsOf (usersCollection fs) (r_id ru) (extractMentions txt)
       \<and> length (notificationsCollection (fst (snd (fs_createComment e fs ru url txt parentId))))
           = length (notificationsCollection fs)
             + length (fs_recipientsOf (usersCollection fs) (r_id ru) (extractMentions txt))"
proof -
  from fs_createComment_events [OF assms, of e fs ru parentId] obtain new c where
    m: "mset (notificationsCollection (fst (snd (fs_createComment e fs ru url txt parentId))))
       = mset (notificationsCollection fs) + mset new"
    and ev: "snd (snd (fs_createComment e fs ru url txt parentId))
       = map (\<lambda>(k, n). NotificationEvent (n_userId n) n) new @ [NewComment url c]"
    and r: "map (\<lambda>(k, n). n_userId n) new
       = fs_recipientsOf (usersCollection fs) (r_id ru) (extractMentions txt)"
    by blast
  from m have "size (mset (notificationsCollection (fst (snd (fs_createComment e fs ru url txt parentId)))))
       = size (mset (notificationsCollection fs) + mset new)" by simp
  then have "length (notificationsCollection (fst (snd (fs_createComment e fs ru url txt parentId))))
       = length (notificationsCollection fs) + length new" by simp
  moreover from r have "length new
       = length (fs_recipientsOf (usersCollection fs) (r_id ru) (extractMentions txt))"
    by (metis length_map)
  ultimately show ?thesis using ev r by (simp add: notified_append notified_map_fs)
qed

text \<open>
  C1, as the claim states it, fails: the text \<open>hi @bob and @bob\<close>, posted by alice,
  leaves two notification rows for user \<open>2\<close> (Bob) and emits two notification events
  for that user, not one; so does \<open>hi @Bob and @Bob\<close> in the Firestore server, whose
  lookup compares the username as it is written: two events and two rows for user \<open>2\<close>.
\<close>

theorem mention_twice_notifies_twice:
  "map n_userId (notifications (fst (snd
      (createComment ex_env ex_server alice ''t'' ''hi @bob and @bob'' None)))) = [''2'', ''2'']
   \<and> notified (snd (snd
      (createComment ex_env ex_server alice ''t'' ''hi @bob and @bob'' None))) = [''2'', ''2'']
   \<and> notified (snd (snd
      (fs_createComment ex_env ex_firestore alice ''t'' ''hi @Bob and @Bob'' None)))
       = [''2'', ''2'']
   \<and> map (\<lambda>(k, n). n_userId n) (notificationsCollection (fst (snd
      (fs_createComment ex_env ex_firestore alice ''t'' ''hi @Bob and @Bob'' None))))
       = [''2'', ''2'']"
  by (simp add: example_defs)

text \<open>
  C1, amended. Creating a comment adds one notification row, and emits one
  notification event carrying that row, for every occurrence of a handle in the raw
  text that resolves to a user other than the author, in the order of the occurrences,
  in both servers: nothing is de-duplicated, and a handle that occurs twice notifies
  its user twice. In the file-backed server the rows are appended to the notifications
  that were there, which are kept. In the Firestore server the notifications
  collection afterwards holds the documents it held and one new document for every
  such occurrence, the recipient of each being the user of the occurrence.
\<close>

theorem one_notification_per_occurrence:
  assumes "url \<noteq> []" and "txt \<noteq> []"
  shows "map n_userId (drop (length (notifications s))
             (notifications (fst (snd (createComment e s ru url txt parentId)))))
           = recipientsOf e (users s) (r_id ru) (extractMentions txt)
       \<and> take (length (notifications s))
             (notifications (fst (snd (createComment e s ru url txt parentId))))
           = notifications s
       \<and> notified (snd (snd (createComment e s ru url txt parentId)))
           = recipientsOf e (users s) (r_id ru) (extractMentions txt)
       \<and> notified (snd (snd (fs_createComment e fs ru url txt parentId)))
           = fs_recipientsOf (usersCollection fs) (r_id ru) (extractMentions txt)
       \<and> length (notificationsCollection (fst (snd (fs_createComment e fs ru url txt parentId))))
           = length (notificationsCollection fs)
             + length (fs_recipientsOf (usersCollection fs) (r_id ru) (extractMentions txt))
       \<and> (\<exists>new. mset (notificationsCollection (fst (snd (fs_createComment e fs ru url txt parentId))))
                   = mset (notificationsCollection fs) + mset new
              \<and> map (\<lambda>(k, n). n_userId n) new
                   = fs_recipientsOf (usersCollection fs) (r_id ru) (extractMentions txt)
              \<and> butlast (snd (snd (fs_createComment e fs ru url txt parentId)))
                   = map (\<lambda>(k, n). NotificationEvent (n_userId n) n) new)
       \<and> butlast (snd (snd (createComment e s ru url txt parentId)))
           = map (\<lambda>n. NotificationEvent (n_userId n) n)
               (drop (length (notifications s))
                  (notifications (fst (snd (createComment e s ru url txt parentId)))))"
proof -
  from createComment_events [OF assms, of e s ru parentId] obtain new c where
    "notifications (fst (snd (createComment e s ru url txt parentId))) = notifications s @ new"
    "snd (snd (createComment e s ru url txt parentId))
       = map (\<lambda>n. NotificationEvent (n_userId n) n) new @ [NewComment url c]"
    by blast
  then have a: "butlast (snd (snd (createComment e s ru url txt parentId)))
           = map (\<lambda>n. NotificationEvent (n_userId n) n)
               (drop (length (notifications s))
                  (notifications (fst (snd (createComment e s ru url txt parentId)))))"
    by (simp add: butlast_append)
  from fs_createComment_events [OF assms, of e fs ru parentId] obtain new c where
    "mset (notificationsCollection (fst (snd (fs_createComment e fs ru url txt parentId))))
       = mset (notificationsCollection fs) + mset new"
    "snd (snd (fs_createComment e fs ru url txt parentId))
       = map (\<lambda>(k, n). NotificationEvent (n_userId n) n) new @ [NewComment url c]"
    "map (\<lambda>(k, n). n_userId n) new
       = fs_recipientsOf (usersCollection fs) (r_id ru) (extractMentions txt)"
    by blast
  then have b: "\<exists>new. mset (notificationsCollection (fst (snd (fs_createComment e fs ru url txt parentId))))
                   = mset (notificationsCollection fs) + mset new
              \<and> map (\<lambda>(k, n). n_userId n) new
                   = fs_recipientsOf (usersCollection fs) (r_id ru) (extractMentions txt)
              \<and> butlast (snd (snd (fs_createComment e fs ru url txt parentId)))
                   = map (\<lambda>(k, n). NotificationEvent (n_userId n) n) new"
    by (intro exI [of _ new]) (simp add: butlast_append)
  from createComment_notifications [OF assms, of s e ru parentId]
    fs_createComment_notifications [OF assms, of e fs ru parentId] a b
  show ?thesis by (simp only: simp_thms)
qed

theorem one_notification_per_occurrence_witness:
  "''t'' \<noteq> [] \<and> ''hi @Bob and @Bob'' \<noteq> []
   \<and> recipientsOf ex_env (users ex_server) (r_id alice) (extractMentions ''hi @Bob and @Bob'')
       = [''2'', ''2'']
   \<and> fs_recipientsOf (usersCollection ex_firestore) (r_id alice)
         (extractMentions ''hi @Bob and @Bob'') = [''2'', ''2'']
   \<and> notified (snd (snd (createComment ex_env ex_server alice ''t'' ''hi @Bob and @Bob'' None)))
       = [''2'', ''2'']
   \<and> notified (snd (snd (fs_createComment ex_env ex_firestore alice ''t'' ''hi @Bob and @Bob'' None)))
       = [''2'', ''2'']
   \<and> length (notificationsCollection (fst (snd
        (fs_createComment ex_env ex_firestore alice ''t'' ''hi @Bob and @Bob'' None))))
       = length (notificationsCollection ex_firestore) + 2"
proof -
  have ev: "recipientsOf ex_env (users ex_server) (r_id alice) (extractMentions ''hi @Bob and @Bob'')
               = [''2'', ''2'']"
      "fs_recipientsOf (usersCollection ex_firestore) (r_id alice)
            (extractMentions ''hi @Bob and @Bob'') = [''2'', ''2'']"
    by (simp_all add: recipientsOf_def fs_recipientsOf_def example_defs)
  have ne: "''t'' \<noteq> []" "''hi @Bob and @Bob'' \<noteq> []" by simp_all
  note t = one_notification_per_occurrence
      [OF ne, of ex_server ex_env alice None ex_firestore]
  from t have "notified (snd (snd (createComment ex_env ex_server alice ''t'' ''hi @Bob and @Bob'' None)))
       = [''2'', ''2'']"
    unfolding ev by blast
  moreover from t have "notified (snd (snd (fs_createComment ex_env ex_firestore alice ''t'' ''hi @Bob and @Bob'' None)))
       = [''2'', ''2'']"
    unfolding ev by blast
  moreover from t have "length (notificationsCollection (fst (snd
        (fs_createComment ex_env ex_firestore alice ''t'' ''hi @Bob and @Bob'' None))))
       = length (notificationsCollection ex_firestore) + 2"
    unfolding ev by simp
  ultimately show ?thesis using ev ne by (simp only: simp_thms)
qed

text \<open>The definitions the lower-casing of a concrete string unfolds.\<close>

lemmas lower_defs = toLowerCase_def lowerChar_def isAscii_def kelvin_def ex_env_def
  findMentionedUser_def

text \<open>
  C9, as the claim states it, fails: a registration is refused only for a username
  that is written the same, so \<open>Bob\<close> and, after it, \<open>bob\<close> can both register. The
  lower-cased handle \<open>bob\<close> is the lower-cased username of the second of them, yet the
  handle resolves to the first, the user \<open>2\<close> called \<open>Bob\<close>: no handle resolves to the user
  \<open>3\<close> called \<open>bob\<close>.
\<close>

theorem second_twin_never_resolved:
  "map u_username (users ex_twins) = [''Bob'', ''bob'']
   \<and> toLowerCase (unicodeLower ex_env) ''bob''
       = toLowerCase (unicodeLower ex_env) (u_username (users ex_twins ! 1))
   \<and> map_option u_username (findMentionedUser ex_env (users ex_twins) ''bob'') = Some ''Bob''
   \<and> map_option u_id (findMentionedUser ex_env (users ex_twins) ''bob'') = Some ''2''
   \<and> u_id (users ex_twins ! 1) = ''3''"
  by (simp add: ex_twins_def registerUser_def emptyServer_def toString.simps Let_def lower_defs)

text \<open>
  A username need not be ASCII. Where the runtime lower-cases the Kelvin sign to \<open>k\<close>,
  the handle \<open>k\<close> resolves to the user whose username is the Kelvin sign.
\<close>

lemma kelvin_username_resolves:
  "map_option u_id (findMentionedUser ex_env ex_kelvin_users ''k'') = Some ''4''"
  by (simp add: ex_kelvin_users_def lower_defs)

text \<open>
  C9, amended. In the file-backed server a handle resolves to the first user, in the
  order of registration, whose lower-cased username is the lower-cased handle, and to
  no user when there is none. Every handle that is extracted from a text is a
  non-empty ASCII string. Among users with ASCII usernames, a handle resolves to the
  first user whose username is the handle up to the case of its letters, and two ASCII
  handles that are the same up to case resolve alike: \<open>@Bob\<close> and \<open>@bob\<close> trigger the
  same recipient. Of two users whose usernames differ only in case, only the first is
  ever resolved.
\<close>

theorem mention_lookup_first_up_to_case:
  "(list_all isAscii x \<longrightarrow> list_all (\<lambda>u. list_all isAscii (u_username u)) us \<longrightarrow>
      findMentionedUser e us x = find (\<lambda>u. sameUpToCase (u_username u) x) us)
   \<and> (m \<in> set (extractMentions t) \<longrightarrow> m \<noteq> [] \<and> list_all isAscii m)
   \<and> (list_all isAscii x \<longrightarrow> list_all isAscii y \<longrightarrow> sameUpToCase x y \<longrightarrow>
        findMentionedUser e us x = findMentionedUser e us y)
   \<and> (findMentionedUser e us x = Some u \<longleftrightarrow>
        (\<exists>i<length us. u = us ! i
           \<and> toLowerCase (unicodeLower e) (u_username (us ! i)) = toLowerCase (unicodeLower e) x
           \<and> (\<forall>j<i. toLowerCase (unicodeLower e) (u_username (us ! j))
                        \<noteq> toLowerCase (unicodeLower e) x)))
   \<and> (distinct us \<longrightarrow> k < l \<longrightarrow> l < length us \<longrightarrow>
        toLowerCase (unicodeLower e) (u_username (us ! k))
          = toLowerCase (unicodeLower e) (u_username (us ! l)) \<longrightarrow>
        findMentionedUser e us x \<noteq> Some (us ! l))"
proof (intro conjI impI)
  assume x: "list_all isAscii x" and us: "list_all (\<lambda>u. list_all isAscii (u_username u)) us"
  have "find (\<lambda>u. toLowerCase (unicodeLower e) (u_username u) = toLowerCase (unicodeLower e) x) us
          = find (\<lambda>u. sameUpToCase (u_username u) x) us"
  proof (rule find_cong [OF refl])
    fix u assume "u \<in> set us"
    with us have "list_all isAscii (u_username u)" by (simp add: list_all_iff)
    from toLowerCase_ascii [OF this x]
    show "(toLowerCase (unicodeLower e) (u_username u) = toLowerCase (unicodeLower e) x)
            = sameUpToCase (u_username u) x" .
  qed
  then show "findMentionedUser e us x = find (\<lambda>u. sameUpToCase (u_username u) x) us"
    by (simp add: findMentionedUser_def)
next
  assume "m \<in> set (extractMentions t)"
  from extractMentions_words [OF this] show "m \<noteq> []" "list_all isAscii m"
    by (auto simp: list_all_iff intro: isWord_ascii)
next
  assume "list_all isAscii x" "list_all isAscii y" "sameUpToCase x y"
  then have "toLowerCase (unicodeLower e) x = toLowerCase (unicodeLower e) y"
    by (simp add: toLowerCase_ascii)
  then show "findMentionedUser e us x = findMentionedUser e us y"
    by (simp add: findMentionedUser_def)
next
  show "findMentionedUser e us x = Some u \<longleftrightarrow>
        (\<exists>i<length us. u = us ! i
           \<and> toLowerCase (unicodeLower e) (u_username (us ! i)) = toLowerCase (unicodeLower e) x
           \<and> (\<forall>j<i. toLowerCase (unicodeLower e) (u_username (us ! j))
                        \<noteq> toLowerCase (unicodeLower e) x))"
    unfolding findMentionedUser_def find_Some_iff by blast
next
  assume d: "distinct us" and kl: "k < l" "l < length us"
    and same: "toLowerCase (unicodeLower e) (u_username (us ! k))
          = toLowerCase (unicodeLower e) (u_username (us ! l))"
  show "findMentionedUser e us x \<noteq> Some (us ! l)"
  proof
    assume "findMentionedUser e us x = Some (us ! l)"
    then obtain i where i: "i < length us" "us ! l = us ! i"
      "toLowerCase (unicodeLower e) (u_username (us ! i)) = toLowerCase (unicodeLower e) x"
      "\<forall>j<i. toLowerCase (unicodeLower e) (u_username (us ! j))
                \<noteq> toLowerCase (unicodeLower e) x"
      unfolding findMentionedUser_def find_Some_iff by blast
    from d kl(2) i(1,2) have "l = i" by (simp add: nth_eq_iff_index_eq)
    with i(3,4) kl(1) same show False by auto
  qed
qed

theorem mention_lookup_first_up_to_case_witness:
  "list_all isAscii ''bob'' \<and> list_all isAscii ''BOB''
   \<and> list_all (\<lambda>u. list_all isAscii (u_username u)) ex_users
   \<and> sameUpToCase ''bob'' ''BOB''
   \<and> find (\<lambda>u. sameUpToCase (u_username u) ''bob'') ex_users = Some (ex_users ! 1)
   \<and> findMentionedUser ex_env ex_users ''bob'' = Some (ex_users ! 1)
   \<and> findMentionedUser ex_env ex_users ''BOB'' = Some (ex_users ! 1)
   \<and> extractMentions ''hi @bob'' = [''bob'']
   \<and> distinct (users ex_twins) \<and> (0::nat) < 1 \<and> 1 < length (users ex_twins)
   \<and> toLowerCase (unicodeLower ex_env) (u_username (users ex_twins ! 0))
       = toLowerCase (unicodeLower ex_env) (u_username (users ex_twins ! 1))
   \<and> findMentionedUser ex_env (users ex_twins) ''BOB'' \<noteq> Some (users ex_twins ! 1)"
proof -
  have a: "list_all isAscii ''bob''" "list_all isAscii ''BOB''"
    "list_all (\<lambda>u. list_all isAscii (u_username u)) ex_users"
    by (simp_all add: isAscii_def ex_users_def)
  have c: "sameUpToCase ''bob'' ''BOB''"
    by (simp add: sameUpToCase_def sameLetter_def)
  have f: "find (\<lambda>u. sameUpToCase (u_username u) ''bob'') ex_users = Some (ex_users ! 1)"
    by (simp add: ex_users_def sameUpToCase_def sameLetter_def)
  have m: "extractMentions ''hi @bob'' = [''bob'']"
    by (simp add: isWord_def)
  have tw: "distinct (users ex_twins)" "(0::nat) < 1" "1 < length (users ex_twins)"
    "toLowerCase (unicodeLower ex_env) (u_username (users ex_twins ! 0))
       = toLowerCase (unicodeLower ex_env) (u_username (users ex_twins ! 1))"
    by (simp_all add: ex_twins_def registerUser_def emptyServer_def toString.simps Let_def
        lower_defs)
  note t = mention_lookup_first_up_to_case [of "''bob''" ex_users ex_env "''bob''" "''hi @bob''"
      "''BOB''" "ex_users ! 1"]
  from t a f have r1: "findMentionedUser ex_env ex_users ''bob'' = Some (ex_users ! 1)"
    by simp
  from t a c have "findMentionedUser ex_env ex_users ''bob'' = findMentionedUser ex_env ex_users ''BOB''"
    by blast
  with r1 have r2: "findMentionedUser ex_env ex_users ''BOB'' = Some (ex_users ! 1)"
    by simp
  from mention_lookup_first_up_to_case [of "''BOB''" "users ex_twins" ex_env "''bob''"
      "''hi @bob''" "''BOB''" "users ex_twins ! 1" 0 1] tw
  have r3: "findMentionedUser ex_env (users ex_twins) ''BOB'' \<noteq> Some (users ex_twins ! 1)"
    by blast
  from a c f m tw r1 r2 r3 show ?thesis by (simp only: simp_thms)
qed

subsection \<open>Delivery of notification events\<close>

lemma receivedBy_connected:
  assumes "distinct (map sock_id hub)" "sock \<in> set hub"
  shows "receivedBy hub evs (sock_id sock) = evs"
proof -
  have one: "map snd (filter (\<lambda>d. fst d = sock_id sock) (io_emit hub ev)) = [ev]" for ev
  proof -
    have "filter (\<lambda>d. fst d = sock_id sock) (io_emit hub ev)
            = map (\<lambda>s. (sock_id s, ev)) (filter (\<lambda>s. sock_id s = sock_id sock) hub)"
      by (simp add: io_emit_def filter_map comp_def)
    also have "\<dots> = [(sock_id sock, ev)]"
      using filter_distinct_key [OF assms] by simp
    finally show ?thesis by simp
  qed
  show ?thesis
    unfolding receivedBy_def deliveries_def
    by (induction evs) (simp_all add: one)
qed

lemma receivedBy_unconnected:
  assumes "sid \<notin> sock_id ` set hub"
  shows "receivedBy hub evs sid = []"
proof -
  have "filter (\<lambda>d. fst d = sid) (io_emit hub ev) = []" for ev
    using assms by (auto simp: io_emit_def filter_empty_conv)
  then show ?thesis
    unfolding receivedBy_def deliveries_def
    by (induction evs) simp_all
qed

text \<open>
  C4, as the claim states it, fails: with two sockets connected, one in the room of the
  page and one in no room, neither subscribed as user \<open>2\<close>, alice's comment \<open>hi @bob\<close>
  delivers Bob's notification event to both.
\<close>

theorem notification_reaches_unsubscribed_socket:
  "notified (snd (snd (createComment ex_env ex_server alice ''t'' ''hi @bob'' None))) = [''2'']
   \<and> map fst (deliveries ex_hub
        [hd (snd (snd (createComment ex_env ex_server alice ''t'' ''hi @bob'' None)))])
       = [''s1'', ''s2'']
   \<and> notified (receivedBy ex_hub
        (snd (snd (createComment ex_env ex_server alice ''t'' ''hi @bob'' None))) ''s2'') = [''2'']
   \<and> \<not> subscribedAs ex_hub ''s1'' ''2'' \<and> \<not> subscribedAs ex_hub ''s2'' ''2''"
  by (simp add: example_defs ex_hub_def joinRoom_def connect_def deliveries_def io_emit_def
      subscribedAs_def receivedBy_def)

text \<open>
  C4, amended. The events that \<open>POST /api/comments\<close> publishes for a comment, in either
  server, are received in full and in order by every connected socket, whatever rooms
  it has joined, and by no socket that is not connected: every connected socket
  receives one notification event for every occurrence of a handle that resolves to a
  user other than the author, whoever that user is. The recipient is only named in the
  event, as the user of the notification it carries, for the client to filter on.
  (Socket identifiers are distinct.)
\<close>

theorem notifications_reach_every_socket:
  assumes "url \<noteq> []" and "txt \<noteq> []" and "distinct (map sock_id hub)"
  shows "(\<forall>sock\<in>set hub.
            receivedBy hub (snd (snd (createComment e s ru url txt parentId))) (sock_id sock)
              = snd (snd (createComment e s ru url txt parentId))
          \<and> notified (receivedBy hub (snd (snd (createComment e s ru url txt parentId)))
                (sock_id sock))
              = recipientsOf e (users s) (r_id ru) (extractMentions txt)
          \<and> receivedBy hub (snd (snd (fs_createComment e fs ru url txt parentId))) (sock_id sock)
              = snd (snd (fs_createComment e fs ru url txt parentId))
          \<and> notified (receivedBy hub (snd (snd (fs_createComment e fs ru url txt parentId)))
                (sock_id sock))
              = fs_recipientsOf (usersCollection fs) (r_id ru) (extractMentions txt))
       \<and> (\<forall>sid. sid \<notin> sock_id ` set hub \<longrightarrow>
             receivedBy hub (snd (snd (createComment e s ru url txt parentId))) sid = []
           \<and> receivedBy hub (snd (snd (fs_createComment e fs ru url txt parentId))) sid = [])
       \<and> (\<forall>r n. NotificationEvent r n \<in> set (snd (snd (createComment e s ru url txt parentId)))
                    \<union> set (snd (snd (fs_createComment e fs ru url txt parentId)))
              \<longrightarrow> n_userId n = r)"
proof (intro conjI ballI allI impI)
  fix sock assume "sock \<in> set hub"
  note rc = receivedBy_connected [OF assms(3) this]
  show "receivedBy hub (snd (snd (createComment e s ru url txt parentId))) (sock_id sock)
              = snd (snd (createComment e s ru url txt parentId))"
    by (rule rc)
  show "receivedBy hub (snd (snd (fs_createComment e fs ru url txt parentId))) (sock_id sock)
              = snd (snd (fs_createComment e fs ru url txt parentId))"
    by (rule rc)
  show "notified (receivedBy hub (snd (snd (createComment e s ru url txt parentId)))
                (sock_id sock))
              = recipientsOf e (users s) (r_id ru) (extractMentions txt)"
    unfolding rc using createComment_notifications [OF assms(1,2), of s e ru parentId] by blast
  show "notified (receivedBy hub (snd (snd (fs_createComment e fs ru url txt parentId)))
                (sock_id sock))
              = fs_recipientsOf (usersCollection fs) (r_id ru) (extractMentions txt)"
    unfolding rc using fs_createComment_notifications [OF assms(1,2), of e fs ru parentId] by blast
next
  fix sid assume "sid \<notin> sock_id ` set hub"
  then show "receivedBy hub (snd (snd (createComment e s ru url txt parentId))) sid = []"
    "receivedBy hub (snd (snd (fs_createComment e fs ru url txt parentId))) sid = []"
    by (rule receivedBy_unconnected)+
next
  fix r n
  assume a: "NotificationEvent r n \<in> set (snd (snd (createComment e s ru url txt parentId)))
                    \<union> set (snd (snd (fs_createComment e fs ru url txt parentId)))"
  from createComment_events [OF assms(1,2), of e s ru parentId] obtain new c where
    b: "snd (snd (createComment e s ru url txt parentId))
       = map (\<lambda>n. NotificationEvent (n_userId n) n) new @ [NewComment url c]"
    by auto
  from fs_createComment_events [OF assms(1,2), of e fs ru parentId] obtain new' :: "(string \<times> notification) list" and c' where
    c: "snd (snd (fs_createComment e fs ru url txt parentId))
       = map (\<lambda>(k, n). NotificationEvent (n_userId n) n) new' @ [NewComment url c']"
    by auto
  from a show "n_userId n = r" unfolding b c by auto
qed

theorem notifications_reach_every_socket_witness:
  "''t'' \<noteq> [] \<and> ''hi @Bob'' \<noteq> [] \<and> distinct (map sock_id ex_hub)
   \<and> map sock_id ex_hub = [''s1'', ''s2'']
   \<and> recipientsOf ex_env (users ex_server) (r_id alice) (extractMentions ''hi @Bob'') = [''2'']
   \<and> fs_recipientsOf (usersCollection ex_firestore) (r_id alice) (extractMentions ''hi @Bob'')
       = [''2'']
   \<and> list_all (\<lambda>sock.
         notified (receivedBy ex_hub
            (snd (snd (createComment ex_env ex_server alice ''t'' ''hi @Bob'' None))) (sock_id sock))
           = [''2'']
       \<and> notified (receivedBy ex_hub
            (snd (snd (fs_createComment ex_env ex_firestore alice ''t'' ''hi @Bob'' None)))
            (sock_id sock)) = [''2'']) ex_hub
   \<and> ''s3'' \<notin> sock_id ` set ex_hub
   \<and> receivedBy ex_hub (snd (snd (createComment ex_env ex_server alice ''t'' ''hi @Bob'' None)))
        ''s3'' = []"
proof -
  have ne: "''t'' \<noteq> []" "''hi @Bob'' \<noteq> []" by simp_all
  have hub: "distinct (map sock_id ex_hub)" "map sock_id ex_hub = [''s1'', ''s2'']"
    "''s3'' \<notin> sock_id ` set ex_hub"
    by (simp_all add: ex_hub_def joinRoom_def connect_def)
  have ev: "recipientsOf ex_env (users ex_server) (r_id alice) (extractMentions ''hi @Bob'') = [''2'']"
    "fs_recipientsOf (usersCollection ex_firestore) (r_id alice) (extractMentions ''hi @Bob'')
       = [''2'']"
    by (simp_all add: recipientsOf_def fs_recipientsOf_def example_defs)
  note t = notifications_reach_every_socket [OF ne hub(1), of ex_env ex_server alice None ex_firestore]
  from t have "list_all (\<lambda>sock.
         notified (receivedBy ex_hub
            (snd (snd (createComment ex_env ex_server alice ''t'' ''hi @Bob'' None))) (sock_id sock))
           = [''2'']
       \<and> notified (receivedBy ex_hub
            (snd (snd (fs_createComment ex_env ex_firestore alice ''t'' ''hi @Bob'' None)))
            (sock_id sock)) = [''2'']) ex_hub"
    unfolding ev list_all_iff by blast
  moreover from t hub(3)
  have "receivedBy ex_hub (snd (snd (createComment ex_env ex_server alice ''t'' ''hi @Bob'' None)))
        ''s3'' = []"
    by blast
  ultimately show ?thesis using ne hub ev by (simp only: simp_thms)
qed

subsection \<open>Voting on a comment that does not exist\<close>

text \<open>
  C7. A vote of a valid kind on an identifier that no comment has is answered with
  \<open>NotFound\<close> by both servers; the state is the state before, and no event is emitted.
\<close>

theorem vote_missing_comment:
  "(voteType \<in> {''up'', ''down'', ''remove''} \<longrightarrow>
      (\<forall>c\<in>set (comments s). c_id c \<noteq> ident) \<longrightarrow>
      vote s ident voteType = (Inl NotFound, s, []))
   \<and> (voteType \<in> {''up'', ''down'', ''remove''} \<longrightarrow> commentsCollection fs ident = None \<longrightarrow>
      fs_vote e fs ru ident voteType = (Inl NotFound, fs, []))"
proof (intro conjI impI)
  assume t: "voteType \<in> {''up'', ''down'', ''remove''}"
    and "\<forall>c\<in>set (comments s). c_id c \<noteq> ident"
  then have "find (\<lambda>c. c_id c = ident) (comments s) = None"
    by (simp add: find_None_iff')
  with t show "vote s ident voteType = (Inl NotFound, s, [])"
    unfolding vote_def by auto
next
  assume t: "voteType \<in> {''up'', ''down'', ''remove''}"
    and "commentsCollection fs ident = None"
  then show "fs_vote e fs ru ident voteType = (Inl NotFound, fs, [])"
    unfolding fs_vote_def by auto
qed

theorem vote_missing_comment_witness:
  "''up'' \<in> {''up'', ''down'', ''remove''}
   \<and> ''Z'' \<notin> set (map c_id (comments ex_thread_server))
   \<and> vote ex_thread_server ''Z'' ''up'' = (Inl NotFound, ex_thread_server, [])
   \<and> commentsCollection ex_firestore ''Z'' = None
   \<and> fs_vote ex_env ex_firestore alice ''Z'' ''up'' = (Inl NotFound, ex_firestore, [])"
  using vote_missing_comment [of "''up''" ex_thread_server "''Z''" ex_firestore ex_env alice]
  by (simp add: ex_thread_server_def ex_thread_def ex_comment_def ex_firestore_def)

subsection \<open>Tallies of the file-backed server\<close>

lemma applyVote_nonneg:
  "0 \<le> c_upvotes c \<and> 0 \<le> c_downvotes c \<Longrightarrow>
   0 \<le> c_upvotes (applyVote t c) \<and> 0 \<le> c_downvotes (applyVote t c)"
  by (simp add: applyVote_def toDouble_nonneg)

lemma createComment_nonneg:
  "tallies_nonneg s \<Longrightarrow> tallies_nonneg (fst (snd (createComment e s ru url txt p)))"
  by (auto simp: createComment_def tallies_nonneg_def Let_def split: prod.splits)

lemma vote_nonneg:
  assumes "tallies_nonneg s"
  shows "tallies_nonneg (fst (snd (vote s i t)))"
proof -
  have "\<forall>c\<in>set (update_first (\<lambda>c. c_id c = i) (applyVote t) (comments s)).
          0 \<le> c_upvotes c \<and> 0 \<le> c_downvotes c"
    using assms unfolding tallies_nonneg_def
    by (intro update_first_pres applyVote_nonneg) auto
  with assms show ?thesis
    by (simp add: vote_def tallies_nonneg_def Let_def split: option.splits)
qed

lemma editComment_nonneg:
  assumes "tallies_nonneg s"
  shows "tallies_nonneg (fst (snd (editComment e s ru i txt)))"
proof -
  have "\<forall>c\<in>set (update_first (\<lambda>c. c_id c = i)
            (\<lambda>c. c\<lparr>c_text := render e txt, c_rawText := txt, c_editedAt := Some (clock e 0)\<rparr>)
            (comments s)). 0 \<le> c_upvotes c \<and> 0 \<le> c_downvotes c"
    using assms unfolding tallies_nonneg_def
    by (intro update_first_pres) auto
  with assms show ?thesis
    by (simp add: editComment_def tallies_nonneg_def Let_def split: option.splits)
qed

lemma deleteComment_nonneg:
  assumes "tallies_nonneg s"
  shows "tallies_nonneg (fst (snd (deleteComment s ru i)))"
proof -
  let ?cs1 = "splice1 (findIndex (\<lambda>c. c_id c = i) (comments s)) (comments s)"
  have "set (fold removeReply (filter (\<lambda>c. c_parentId c = Some i) ?cs1) ?cs1) \<subseteq> set (comments s)"
    using set_fold_removeReply set_splice1 by (rule order_trans)
  with assms show ?thesis
    by (auto simp: deleteComment_def tallies_nonneg_def Let_def split: option.splits)
qed

lemma handle_nonneg: "tallies_nonneg s \<Longrightarrow> tallies_nonneg (handle r s)"
proof (cases r)
  case (Pair e q)
  assume "tallies_nonneg s"
  then show ?thesis unfolding Pair
    by (cases q)
      (simp_all add: createComment_nonneg vote_nonneg editComment_nonneg deleteComment_nonneg)
qed

lemma run_nonneg: "tallies_nonneg s \<Longrightarrow> tallies_nonneg (run s reqs)"
  unfolding run_def by (induction reqs arbitrary: s) (simp_all add: handle_nonneg)

text \<open>
  C8. In the file-backed server every request keeps the stored tallies of all comments
  at zero or above: a comment is created with both counters zero, a vote adds one to a
  counter, a removal stops at zero, and editing and deleting change no counter. So
  the tallies are never negative after any sequence of requests served from the empty
  store, or from any store whose tallies are not negative.
\<close>

theorem tallies_never_negative:
  "tallies_nonneg (run emptyServer reqs)
   \<and> (tallies_nonneg s \<longrightarrow> tallies_nonneg (run s reqs))"
proof (intro conjI impI)
  have "tallies_nonneg emptyServer"
    by (simp add: tallies_nonneg_def emptyServer_def)
  then show "tallies_nonneg (run emptyServer reqs)" by (rule run_nonneg)
next
  assume "tallies_nonneg s"
  then show "tallies_nonneg (run s reqs)" by (rule run_nonneg)
qed

theorem tallies_never_negative_witness:
  "tallies_nonneg emptyServer
   \<and> map (\<lambda>c. (c_id c, c_upvotes c, c_downvotes c)) (comments (run emptyServer ex_requests))
       = [(''1000'', 0, 0)]
   \<and> tallies_nonneg (run emptyServer ex_requests)"
proof -
  have "tallies_nonneg emptyServer"
    by (simp add: tallies_nonneg_def emptyServer_def)
  moreover have "map (\<lambda>c. (c_id c, c_upvotes c, c_downvotes c)) (comments (run emptyServer ex_requests))
       = [(''1000'', 0, 0)]"
    by (simp add: emptyServer_def ex_requests_def run_def example_defs)
  ultimately show ?thesis
    using tallies_never_negative [of ex_requests emptyServer] by simp
qed

subsection \<open>Deleting a comment\<close>

lemma splice1_0: "splice1 0 (x # xs) = xs"
  by (simp add: splice1_def)

lemma splice1_Suc: "0 \<le> i \<Longrightarrow> splice1 (i + 1) (x # xs) = x # splice1 i xs"
  by (simp add: splice1_def Let_def min_def nat_add_distrib)

lemma splice1_first_match:
  "distinct (map f xs) \<Longrightarrow> k \<in> f ` set xs \<Longrightarrow>
   splice1 (findIndex (\<lambda>c. f c = k) xs) xs = filter (\<lambda>c. f c \<noteq> k) xs"
proof (induction xs)
  case Nil
  then show ?case by simp
next
  case (Cons a xs)
  show ?case
  proof (cases "f a = k")
    case True
    with Cons.prems(1) have "\<forall>x\<in>set xs. f x \<noteq> k" by (auto simp: image_iff)
    then have "filter (\<lambda>c. f c \<noteq> k) xs = xs" by simp
    with True show ?thesis by (simp add: splice1_0)
  next
    case False
    with Cons.prems have k: "k \<in> f ` set xs" and d: "distinct (map f xs)" by auto
    then have ex: "\<exists>x\<in>set xs. f x = k" by auto
    have nn: "0 \<le> findIndex (\<lambda>c. f c = k) xs"
      by (simp add: findIndex_nonneg [OF ex])
    from False nn have "findIndex (\<lambda>c. f c = k) (a # xs) = findIndex (\<lambda>c. f c = k) xs + 1"
      by (simp add: Let_def)
    with False nn Cons.IH [OF d k] show ?thesis
      by (simp add: splice1_Suc)
  qed
qed

lemma fold_removeReply:
  "distinct (map c_id cs) \<Longrightarrow> set rs \<subseteq> set cs \<Longrightarrow> distinct rs \<Longrightarrow>
   fold removeReply rs cs = filter (\<lambda>c. c_id c \<notin> c_id ` set rs) cs"
proof (induction rs arbitrary: cs)
  case Nil
  then show ?case by simp
next
  case (Cons r rs)
  let ?cs' = "filter (\<lambda>c. c_id c \<noteq> c_id r) cs"
  from Cons.prems have r: "r \<in> set cs" by simp
  then have step: "removeReply r cs = ?cs'"
    unfolding removeReply_def using Cons.prems(1) by (intro splice1_first_match) auto
  have d': "distinct (map c_id ?cs')"
    using Cons.prems(1) by (simp add: distinct_map_filter)
  have sub: "set rs \<subseteq> set ?cs'"
  proof
    fix x assume x: "x \<in> set rs"
    with Cons.prems have xc: "x \<in> set cs" and ne: "x \<noteq> r" by auto
    from Cons.prems(1) have "inj_on c_id (set cs)" by (simp add: distinct_map)
    with xc r ne have "c_id x \<noteq> c_id r" by (auto dest: inj_onD)
    with xc show "x \<in> set ?cs'" by simp
  qed
  from Cons.prems have "distinct rs" by simp
  from Cons.IH [OF d' sub this] step show ?case
    by (simp add: conj_commute)
qed

lemma deleteComment_filter:
  assumes d: "distinct (map c_id (comments s))"
    and a: "a \<in> set (comments s)" "c_id a = ident" "c_authorId a = r_id ru"
  shows "deleteComment s ru ident =
           (Inr (), s\<lparr>comments := filter (\<lambda>c. c_id c \<noteq> ident \<and> c_parentId c \<noteq> Some ident)
                                     (comments s)\<rparr>,
            [CommentDeleted ident])"
proof -
  let ?cs = "comments s"
  let ?cs1 = "filter (\<lambda>c. c_id c \<noteq> ident) ?cs"
  let ?rs = "filter (\<lambda>c. c_parentId c = Some ident) ?cs1"
  from d have inj: "inj_on c_id (set ?cs)" by (simp add: distinct_map)
  obtain c where f: "find (\<lambda>c. c_id c = ident) ?cs = Some c"
    using a by (cases "find (\<lambda>c. c_id c = ident) ?cs") (auto simp: find_None_iff')
  from find_Some_mem [OF f] have "c \<in> set ?cs" "c_id c = ident" by auto
  with inj a have "c = a" by (auto dest: inj_onD)
  with a have auth: "c_authorId c = r_id ru" by simp
  have s1: "splice1 (findIndex (\<lambda>c. c_id c = ident) ?cs) ?cs = ?cs1"
    using d a by (intro splice1_first_match) auto
  have d1: "distinct (map c_id ?cs1)" using d by (simp add: distinct_map_filter)
  have "distinct ?cs" using d by (simp add: distinct_map)
  then have dr: "distinct ?rs" by simp
  have s2: "fold removeReply ?rs ?cs1 = filter (\<lambda>c. c_id c \<notin> c_id ` set ?rs) ?cs1"
    using d1 _ dr by (rule fold_removeReply) auto
  have "filter (\<lambda>c. c_id c \<notin> c_id ` set ?rs) ?cs1
          = filter (\<lambda>c. c_id c \<noteq> ident \<and> c_parentId c \<noteq> Some ident) ?cs"
  proof -
    have "c_id x \<in> c_id ` set ?rs \<longleftrightarrow> c_parentId x = Some ident"
      if "x \<in> set ?cs" "c_id x \<noteq> ident" for x
    proof
      assume "c_id x \<in> c_id ` set ?rs"
      then obtain r where r: "r \<in> set ?cs" "c_parentId r = Some ident" "c_id r = c_id x" by auto
      with inj that have "r = x" by (auto dest: inj_onD)
      with r show "c_parentId x = Some ident" by simp
    next
      assume "c_parentId x = Some ident"
      with that have "x \<in> set ?rs" by simp
      then show "c_id x \<in> c_id ` set ?rs" by (rule imageI)
    qed
    then have "\<forall>x\<in>set ?cs. (c_id x \<noteq> ident \<and> c_id x \<notin> c_id ` set ?rs)
                      = (c_id x \<noteq> ident \<and> c_parentId x \<noteq> Some ident)"
      by blast
    then have "filter (\<lambda>x. c_id x \<noteq> ident \<and> c_id x \<notin> c_id ` set ?rs) ?cs
                 = filter (\<lambda>c. c_id c \<noteq> ident \<and> c_parentId c \<noteq> Some ident) ?cs"
      by (intro filter_cong refl) simp
    then show ?thesis by (simp add: conj_commute)
  qed
  with s2 have s3: "fold removeReply ?rs ?cs1
      = filter (\<lambda>c. c_id c \<noteq> ident \<and> c_parentId c \<noteq> Some ident) ?cs" by simp
  have "deleteComment s ru ident =
          (Inr (), s\<lparr>comments := fold removeReply ?rs ?cs1\<rparr>, [CommentDeleted ident])"
    unfolding deleteComment_def f Let_def s1 by (simp add: auth del: filter_filter)
  then show ?thesis unfolding s3 .
qed

text \<open>
  C3, as the claim states it, fails: when alice deletes \<open>A\<close> from the thread \<open>A\<close>,
  \<open>B\<close> (a reply to \<open>A\<close>), \<open>C\<close> (a reply to \<open>B\<close>), the grandchild \<open>C\<close> stays in the
  store of either server.
\<close>

theorem delete_leaves_grandchild:
  "map c_id (comments (fst (snd (deleteComment ex_thread_server alice ''A'')))) = [''C'']
   \<and> commentsCollection (fst (snd (fs_deleteComment ex_firestore alice ''A''))) ''C''
       = Some (ex_comment ''C'' (Some ''B''))"
  by (simp add: example_defs)

text \<open>
  C3, amended. Deleting a comment removes it and its direct replies, and nothing else:
  when the author deletes \<open>A\<close>, the store keeps exactly the comments that are not \<open>A\<close>
  and whose \<open>parentId\<close> is not \<open>A\<close>'s identifier (in the file-backed server, where
  identifiers are generated and not checked, for a store whose identifiers are
  distinct). Replies to the replies stay in the store.
\<close>

theorem delete_removes_direct_replies:
  "(distinct (map c_id (comments s)) \<longrightarrow> a \<in> set (comments s) \<longrightarrow> c_id a = ident \<longrightarrow>
      c_authorId a = r_id ru \<longrightarrow>
      deleteComment s ru ident =
        (Inr (),
         s\<lparr>comments := filter (\<lambda>c. c_id c \<noteq> ident \<and> c_parentId c \<noteq> Some ident) (comments s)\<rparr>,
         [CommentDeleted ident]))
   \<and> (commentsCollection fs ident = Some d \<longrightarrow> c_authorId d = r_id ru \<longrightarrow>
        commentsCollection (fst (snd (fs_deleteComment fs ru ident))) =
          (\<lambda>k. if k = ident then None
               else case commentsCollection fs k of
                      None \<Rightarrow> None
                    | Some x \<Rightarrow> if c_parentId x = Some ident then None else Some x))"
proof (intro conjI impI)
  assume "distinct (map c_id (comments s))" "a \<in> set (comments s)" "c_id a = ident"
    "c_authorId a = r_id ru"
  then show "deleteComment s ru ident =
        (Inr (),
         s\<lparr>comments := filter (\<lambda>c. c_id c \<noteq> ident \<and> c_parentId c \<noteq> Some ident) (comments s)\<rparr>,
         [CommentDeleted ident])"
    by (rule deleteComment_filter)
next
  assume "commentsCollection fs ident = Some d" "c_authorId d = r_id ru"
  then show "commentsCollection (fst (snd (fs_deleteComment fs ru ident))) =
          (\<lambda>k. if k = ident then None
               else case commentsCollection fs k of
                      None \<Rightarrow> None
                    | Some x \<Rightarrow> if c_parentId x = Some ident then None else Some x)"
    by (auto simp: fs_deleteComment_def Let_def)
qed

theorem delete_removes_direct_replies_witness:
  "distinct (map c_id (comments ex_thread_server))
   \<and> ex_comment ''A'' None \<in> set (comments ex_thread_server)
   \<and> c_authorId (ex_comment ''A'' None) = r_id alice
   \<and> fst (deleteComment ex_thread_server alice ''A'') = Inr ()
   \<and> comments (fst (snd (deleteComment ex_thread_server alice ''A'')))
       = [ex_comment ''C'' (Some ''B'')]
   \<and> commentsCollection ex_firestore ''A'' = Some (ex_comment ''A'' None)
   \<and> commentsCollection (fst (snd (fs_deleteComment ex_firestore alice ''A''))) ''B'' = None"
  using delete_removes_direct_replies
    [of ex_thread_server "ex_comment ''A'' None" "''A''" alice ex_firestore "ex_comment ''A'' None"]
  by (simp add: ex_thread_server_def ex_thread_def ex_comment_def ex_firestore_def alice_def)

subsection \<open>Casting the same vote twice\<close>

lemma filter_insort_key_new:
  "filter P xs = [] \<Longrightarrow> P x \<Longrightarrow> filter P (insort_key f x xs) = [x]"
  by (induction xs) (auto split: if_splits)

lemma update_doc_add_doc:
  assumes "k \<notin> fst ` set col" and "g d = d"
  shows "update_doc k g (add_doc k d col) = add_doc k d col"
proof -
  have "\<forall>y\<in>set (insort_key fst (k, d) col).
          (case y of (k', d') \<Rightarrow> if k' = k then (k', g d') else (k', d')) = y"
    using assms by (force simp: set_insort_key)
  then show ?thesis
    unfolding update_doc_def add_doc_def by (intro map_idI) auto
qed

lemma update_doc_idem:
  assumes "\<And>d. g (g d) = g d"
  shows "update_doc k g (update_doc k g col) = update_doc k g col"
  unfolding update_doc_def by (induction col) (auto simp: assms)

lemma filter_update_doc:
  assumes "\<And>k' d. P (k', g d) = P (k', d)"
  shows "filter P (update_doc k g col) = update_doc k g (filter P col)"
  unfolding update_doc_def by (induction col) (auto simp: assms split: if_splits)

lemma update_doc_hd_key: "update_doc k g ((k', d) # xs) = (k'', d'') # ys \<Longrightarrow> k'' = k'"
  by (auto simp: update_doc_def split: if_splits)

lemma fs_vote_again:
  assumes t: "voteType \<in> {''up'', ''down''}"
    and fresh: "autoId e 0 \<notin> fst ` set (votesCollection fs)"
  shows "fs_vote e' (fst (snd (fs_vote e fs ru ident voteType))) ru ident voteType
           = fs_vote e fs ru ident voteType"
proof (cases "commentsCollection fs ident")
  case None
  with t show ?thesis by (auto simp: fs_vote_def)
next
  case (Some doc)
  let ?P = "\<lambda>(k, v). v_commentId v = ident \<and> v_userId v = r_id ru"
  let ?g = "\<lambda>v. v\<lparr>v_voteType := voteType\<rparr>"
  let ?row = "\<lparr>v_commentId = ident, v_userId = r_id ru, v_voteType = voteType,
               v_timestamp = clock e 0\<rparr>"
  from t have nr: "voteType \<noteq> ''remove''" "voteType \<noteq> []"
    and valid: "voteType \<in> set [''up'', ''down'', ''remove'']" by auto
  show ?thesis
  proof (cases "filter ?P (votesCollection fs)")
    case Nil
    let ?votes1 = "add_doc (autoId e 0) ?row (votesCollection fs)"
    let ?fs1 = "fs\<lparr>votesCollection := ?votes1\<rparr>"
    have first: "fs_vote e fs ru ident voteType =
        (Inr (getVotesForComment ?fs1 ident), ?fs1,
         [CommentVoted ident (fst (getVotesForComment ?fs1 ident)) (snd (getVotesForComment ?fs1 ident))])"
      using nr valid Some Nil by (simp add: fs_vote_def Let_def)
    have ex1: "filter ?P ?votes1 = [(autoId e 0, ?row)]"
      unfolding add_doc_def using Nil by (intro filter_insort_key_new) auto
    have upd: "update_doc (autoId e 0) ?g ?votes1 = ?votes1"
      using fresh by (intro update_doc_add_doc) auto
    have "fs_vote e' ?fs1 ru ident voteType =
        (Inr (getVotesForComment ?fs1 ident), ?fs1,
         [CommentVoted ident (fst (getVotesForComment ?fs1 ident)) (snd (getVotesForComment ?fs1 ident))])"
      using nr valid Some by (simp add: fs_vote_def Let_def ex1 upd)
    with first show ?thesis by simp
  next
    case (Cons kv rest)
    obtain k0 v0 where kv: "kv = (k0, v0)" by (cases kv)
    let ?votes1 = "update_doc k0 ?g (votesCollection fs)"
    let ?fs1 = "fs\<lparr>votesCollection := ?votes1\<rparr>"
    have first: "fs_vote e fs ru ident voteType =
        (Inr (getVotesForComment ?fs1 ident), ?fs1,
         [CommentVoted ident (fst (getVotesForComment ?fs1 ident)) (snd (getVotesForComment ?fs1 ident))])"
      using nr valid Some Cons kv by (simp add: fs_vote_def Let_def)
    have "filter ?P ?votes1 = update_doc k0 ?g (filter ?P (votesCollection fs))"
      by (intro filter_update_doc) simp
    also have "\<dots> = update_doc k0 ?g ((k0, v0) # rest)" using Cons kv by simp
    also have "\<dots> = (k0, ?g v0) # update_doc k0 ?g rest" by (simp add: update_doc_def)
    finally have ex1: "filter ?P ?votes1 = (k0, ?g v0) # update_doc k0 ?g rest" .
    have upd: "update_doc k0 ?g ?votes1 = ?votes1"
      by (intro update_doc_idem) simp
    have "fs_vote e' ?fs1 ru ident voteType =
        (Inr (getVotesForComment ?fs1 ident), ?fs1,
         [CommentVoted ident (fst (getVotesForComment ?fs1 ident)) (snd (getVotesForComment ?fs1 ident))])"
      using nr valid Some by (simp add: fs_vote_def Let_def ex1 upd)
    with first show ?thesis by simp
  qed
qed

text \<open>
  The counter variant, below the bound where a double holds every integer: a vote is
  counted once by a request and twice by two.
\<close>

lemma applyVote_counted:
  assumes "voteType \<in> {''up'', ''down''}"
    and "0 \<le> c_upvotes c" "c_upvotes c < 2 ^ 53" "0 \<le> c_downvotes c" "c_downvotes c < 2 ^ 53"
  shows "applyVote voteType c = counted voteType c"
proof -
  have "toDouble (c_upvotes c + 1) = c_upvotes c + 1" "toDouble (c_downvotes c + 1) = c_downvotes c + 1"
    using assms(2-) by (simp_all add: toDouble_exact)
  with assms(1) show ?thesis by (auto simp: applyVote_def counted_def)
qed

lemma vote_counted:
  assumes t: "voteType \<in> {''up'', ''down''}"
    and f: "find (\<lambda>c. c_id c = ident) (comments s) = Some c"
    and b: "0 \<le> c_upvotes c" "c_upvotes c < 2 ^ 53" "0 \<le> c_downvotes c" "c_downvotes c < 2 ^ 53"
  shows "vote s ident voteType =
           (Inr (c_upvotes (counted voteType c), c_downvotes (counted voteType c)),
            s\<lparr>comments := update_first (\<lambda>c. c_id c = ident) (counted voteType) (comments s)\<rparr>,
            [CommentVoted ident (c_upvotes (counted voteType c)) (c_downvotes (counted voteType c))])"
proof -
  have a: "applyVote voteType c = counted voteType c"
    using t b by (rule applyVote_counted)
  from f a have "update_first (\<lambda>c. c_id c = ident) (applyVote voteType) (comments s)
        = update_first (\<lambda>c. c_id c = ident) (counted voteType) (comments s)"
    by (rule update_first_cong)
  with t f a show ?thesis by (auto simp: vote_def Let_def)
qed

lemma vote_twice_counted:
  assumes t: "voteType \<in> {''up'', ''down''}"
    and f: "find (\<lambda>c. c_id c = ident) (comments s) = Some c"
    and b: "0 \<le> c_upvotes c" "c_upvotes c + 2 \<le> 2 ^ 53"
      "0 \<le> c_downvotes c" "c_downvotes c + 2 \<le> 2 ^ 53"
  shows "vote s ident voteType =
           (Inr (c_upvotes (counted voteType c), c_downvotes (counted voteType c)),
            s\<lparr>comments := update_first (\<lambda>c. c_id c = ident) (counted voteType) (comments s)\<rparr>,
            [CommentVoted ident (c_upvotes (counted voteType c)) (c_downvotes (counted voteType c))])"
    and "vote (fst (snd (vote s ident voteType))) ident voteType =
           (Inr (c_upvotes (counted voteType (counted voteType c)),
                 c_downvotes (counted voteType (counted voteType c))),
            s\<lparr>comments := update_first (\<lambda>c. c_id c = ident) (counted voteType \<circ> counted voteType)
                            (comments s)\<rparr>,
            [CommentVoted ident (c_upvotes (counted voteType (counted voteType c)))
               (c_downvotes (counted voteType (counted voteType c)))])"
proof -
  let ?P = "\<lambda>c. c_id c = ident"
  let ?s1 = "s\<lparr>comments := update_first ?P (counted voteType) (comments s)\<rparr>"
  from b have b1: "0 \<le> c_upvotes c" "c_upvotes c < 2 ^ 53" "0 \<le> c_downvotes c" "c_downvotes c < 2 ^ 53"
    by simp_all
  show first: "vote s ident voteType =
           (Inr (c_upvotes (counted voteType c), c_downvotes (counted voteType c)), ?s1,
            [CommentVoted ident (c_upvotes (counted voteType c)) (c_downvotes (counted voteType c))])"
    using t f b1 by (rule vote_counted)
  have keep: "?P (counted voteType x) = ?P x" for x by (simp add: counted_def)
  have f1: "find ?P (comments ?s1) = Some (counted voteType c)"
    using find_update_first [of ?P "counted voteType" "comments s", OF keep] f by simp
  have b2: "0 \<le> c_upvotes (counted voteType c)" "c_upvotes (counted voteType c) < 2 ^ 53"
    "0 \<le> c_downvotes (counted voteType c)" "c_downvotes (counted voteType c) < 2 ^ 53"
    using b by (simp_all add: counted_def)
  have tw: "update_first ?P (counted voteType) (comments ?s1)
      = update_first ?P (counted voteType \<circ> counted voteType) (comments s)"
    using update_first_twice [of ?P "counted voteType" "counted voteType" "comments s", OF keep]
    by simp
  from vote_counted [OF t f1 b2] tw
  show "vote (fst (snd (vote s ident voteType))) ident voteType =
           (Inr (c_upvotes (counted voteType (counted voteType c)),
                 c_downvotes (counted voteType (counted voteType c))),
            s\<lparr>comments := update_first ?P (counted voteType \<circ> counted voteType) (comments s)\<rparr>,
            [CommentVoted ident (c_upvotes (counted voteType (counted voteType c)))
               (c_downvotes (counted voteType (counted voteType c)))])"
    unfolding first by simp
qed

text \<open>
  Past that bound the counter does not move: a counter at \<open>2\<^sup>5\<^sup>3\<close> stays there, the sum
  being rounded back.
\<close>

lemma counter_stops_at_two_to_53:
  "c_upvotes c = 2 ^ 53 \<Longrightarrow> c_upvotes (applyVote ''up'' c) = 2 ^ 53"
  using toDouble_tie by (simp add: applyVote_def)

text \<open>
  C2, as the claim states it, fails in the counter variant: two \<open>up\<close> votes on comment
  \<open>A\<close> leave its tally at two, not at the one it had after the first.
\<close>

theorem counter_vote_twice_counts_twice:
  "map c_upvotes (comments (fst (snd (vote ex_thread_server ''A'' ''up'')))) = [1, 0, 0]
   \<and> map c_upvotes (comments (fst (snd
        (vote (fst (snd (vote ex_thread_server ''A'' ''up''))) ''A'' ''up'')))) = [2, 0, 0]"
  by (simp add: example_defs)

text \<open>
  C2, amended. In the variant with one vote row per voter (the Firestore server),
  casting a vote of kind \<open>up\<close> or \<open>down\<close> again, by the same voter on the same comment,
  gives the response of the first cast and leaves the store as the first cast left
  it, so the tally does not move (the identifier generated for a new row being one
  that no row has). In the counter variant (the file-backed server) a vote is not tied
  to its voter: a request of kind \<open>up\<close> or \<open>down\<close> on an existing comment stores the
  comment with one more on its counter of that kind, answers and publishes the new
  tally, and changes nothing else; the same request again stores the comment with two
  more and answers the tally with two more (the counters being doubles: for counters
  that stay at \<open>2\<^sup>5\<^sup>3\<close> or below).
\<close>

theorem vote_row_idempotent:
  "(voteType \<in> {''up'', ''down''} \<longrightarrow> autoId e 0 \<notin> fst ` set (votesCollection fs) \<longrightarrow>
      fs_vote e' (fst (snd (fs_vote e fs ru ident voteType))) ru ident voteType
        = fs_vote e fs ru ident voteType)
   \<and> (voteType \<in> {''up'', ''down''} \<longrightarrow>
      find (\<lambda>c. c_id c = ident) (comments s) = Some c \<longrightarrow>
      0 \<le> c_upvotes c \<longrightarrow> c_upvotes c + 2 \<le> 2 ^ 53 \<longrightarrow>
      0 \<le> c_downvotes c \<longrightarrow> c_downvotes c + 2 \<le> 2 ^ 53 \<longrightarrow>
        vote s ident voteType =
          (Inr (c_upvotes (counted voteType c), c_downvotes (counted voteType c)),
           s\<lparr>comments := update_first (\<lambda>c. c_id c = ident) (counted voteType) (comments s)\<rparr>,
           [CommentVoted ident (c_upvotes (counted voteType c)) (c_downvotes (counted voteType c))])
        \<and> vote (fst (snd (vote s ident voteType))) ident voteType =
          (Inr (c_upvotes (counted voteType (counted voteType c)),
                c_downvotes (counted voteType (counted voteType c))),
           s\<lparr>comments := update_first (\<lambda>c. c_id c = ident) (counted voteType \<circ> counted voteType)
                           (comments s)\<rparr>,
           [CommentVoted ident (c_upvotes (counted voteType (counted voteType c)))
              (c_downvotes (counted voteType (counted voteType c)))]))"
proof (intro conjI impI)
  assume "voteType \<in> {''up'', ''down''}" "autoId e 0 \<notin> fst ` set (votesCollection fs)"
  then show "fs_vote e' (fst (snd (fs_vote e fs ru ident voteType))) ru ident voteType
        = fs_vote e fs ru ident voteType"
    by (rule fs_vote_again)
next
  assume a: "voteType \<in> {''up'', ''down''}"
    "find (\<lambda>c. c_id c = ident) (comments s) = Some c"
    "0 \<le> c_upvotes c" "c_upvotes c + 2 \<le> 2 ^ 53"
    "0 \<le> c_downvotes c" "c_downvotes c + 2 \<le> 2 ^ 53"
  show "vote s ident voteType =
          (Inr (c_upvotes (counted voteType c), c_downvotes (counted voteType c)),
           s\<lparr>comments := update_first (\<lambda>c. c_id c = ident) (counted voteType) (comments s)\<rparr>,
           [CommentVoted ident (c_upvotes (counted voteType c)) (c_downvotes (counted voteType c))])"
    using a by (rule vote_twice_counted(1))
  show "vote (fst (snd (vote s ident voteType))) ident voteType =
          (Inr (c_upvotes (counted voteType (counted voteType c)),
                c_downvotes (counted voteType (counted voteType c))),
           s\<lparr>comments := update_first (\<lambda>c. c_id c = ident) (counted voteType \<circ> counted voteType)
                           (comments s)\<rparr>,
           [CommentVoted ident (c_upvotes (counted voteType (counted voteType c)))
              (c_downvotes (counted voteType (counted voteType c)))])"
    using a by (rule vote_twice_counted(2))
qed

theorem vote_row_idempotent_witness:
  "''up'' \<in> {''up'', ''down''}
   \<and> autoId ex_env 0 \<notin> fst ` set (votesCollection ex_firestore)
   \<and> fst (fs_vote ex_env ex_firestore alice ''A'' ''up'') = Inr (1, 0)
   \<and> fs_vote ex_env (fst (snd (fs_vote ex_env ex_firestore alice ''A'' ''up''))) alice ''A'' ''up''
       = fs_vote ex_env ex_firestore alice ''A'' ''up''
   \<and> find (\<lambda>c. c_id c = ''A'') (comments ex_thread_server) = Some (ex_comment ''A'' None)
   \<and> fst (vote ex_thread_server ''A'' ''up'') = Inr (1, 0)
   \<and> fst (vote (fst (snd (vote ex_thread_server ''A'' ''up''))) ''A'' ''up'') = Inr (2, 0)
   \<and> map c_upvotes (comments (fst (snd
        (vote (fst (snd (vote ex_thread_server ''A'' ''up''))) ''A'' ''up'')))) = [2, 0, 0]"
proof -
  have h: "''up'' \<in> {''up'', ''down''}" "autoId ex_env 0 \<notin> fst ` set (votesCollection ex_firestore)"
    "find (\<lambda>c. c_id c = ''A'') (comments ex_thread_server) = Some (ex_comment ''A'' None)"
    "0 \<le> c_upvotes (ex_comment ''A'' None)" "c_upvotes (ex_comment ''A'' None) + 2 \<le> 2 ^ 53"
    "0 \<le> c_downvotes (ex_comment ''A'' None)" "c_downvotes (ex_comment ''A'' None) + 2 \<le> 2 ^ 53"
    by (simp_all add: ex_firestore_def ex_thread_server_def ex_thread_def ex_comment_def)
  have f: "fst (fs_vote ex_env ex_firestore alice ''A'' ''up'') = Inr (1, 0)"
    by (simp add: example_defs)
  note t = vote_row_idempotent
    [of "''up''" ex_env ex_firestore ex_env alice "''A''" ex_thread_server "ex_comment ''A'' None"]
  from t h have i: "fs_vote ex_env (fst (snd (fs_vote ex_env ex_firestore alice ''A'' ''up''))) alice ''A'' ''up''
       = fs_vote ex_env ex_firestore alice ''A'' ''up''"
    by blast
  from t h have v1: "vote ex_thread_server ''A'' ''up'' =
          (Inr (c_upvotes (counted ''up'' (ex_comment ''A'' None)),
                c_downvotes (counted ''up'' (ex_comment ''A'' None))),
           ex_thread_server\<lparr>comments := update_first (\<lambda>c. c_id c = ''A'') (counted ''up'')
                           (comments ex_thread_server)\<rparr>,
           [CommentVoted ''A'' (c_upvotes (counted ''up'' (ex_comment ''A'' None)))
              (c_downvotes (counted ''up'' (ex_comment ''A'' None)))])"
    by blast
  from t h have v2: "vote (fst (snd (vote ex_thread_server ''A'' ''up''))) ''A'' ''up'' =
          (Inr (c_upvotes (counted ''up'' (counted ''up'' (ex_comment ''A'' None))),
                c_downvotes (counted ''up'' (counted ''up'' (ex_comment ''A'' None)))),
           ex_thread_server\<lparr>comments := update_first (\<lambda>c. c_id c = ''A'')
                           (counted ''up'' \<circ> counted ''up'') (comments ex_thread_server)\<rparr>,
           [CommentVoted ''A'' (c_upvotes (counted ''up'' (counted ''up'' (ex_comment ''A'' None))))
              (c_downvotes (counted ''up'' (counted ''up'' (ex_comment ''A'' None))))])"
    by blast
  have r1: "fst (vote ex_thread_server ''A'' ''up'') = Inr (1, 0)"
    unfolding v1 by (simp add: counted_def ex_comment_def)
  have r2: "fst (vote (fst (snd (vote ex_thread_server ''A'' ''up''))) ''A'' ''up'') = Inr (2, 0)"
    unfolding v2 by (simp add: counted_def ex_comment_def)
  have r3: "map c_upvotes (comments (fst (snd
        (vote (fst (snd (vote ex_thread_server ''A'' ''up''))) ''A'' ''up'')))) = [2, 0, 0]"
    unfolding v2
    by (simp add: counted_def ex_comment_def ex_thread_server_def ex_thread_def)
  from h(1-3) f i r1 r2 r3 show ?thesis by (simp only: simp_thms)
qed

subsection \<open>The two passes of the tree builder\<close>

lemma mapPass_eq:
  "\<forall>a\<in>set as. a < length h \<Longrightarrow>
   mapPass as (h, m) =
     (h @ map (\<lambda>a. spread_node (h ! a)) as,
      m ++ idMap (map (\<lambda>a. c_id (props (h ! a))) as) (length h))"
proof (induction as arbitrary: h m)
  case Nil
  then show ?case by simp
next
  case (Cons a as)
  let ?h' = "h @ [spread_node (h ! a)]"
  from Cons.prems have lt: "\<forall>x\<in>set as. x < length ?h'" by auto
  from Cons.prems have same: "\<forall>x\<in>set as. ?h' ! x = h ! x" by (auto simp: nth_append)
  then have m1: "map (\<lambda>a. spread_node (?h' ! a)) as = map (\<lambda>a. spread_node (h ! a)) as"
    and m2: "map (\<lambda>a. c_id (props (?h' ! a))) as = map (\<lambda>a. c_id (props (h ! a))) as"
    by (auto intro!: map_cong)
  have mp: "m(c_id (props (h ! a)) \<mapsto> length h) ++ idMap ks (Suc (length h))
              = m ++ idMap (c_id (props (h ! a)) # ks) (length h)" for ks
    by (rule ext) (simp add: map_add_def split: option.splits)
  have "mapPass (a # as) (h, m) = mapPass as (?h', m(c_id (props (h ! a)) \<mapsto> length h))"
    by simp
  also have "\<dots> = (?h' @ map (\<lambda>a. spread_node (?h' ! a)) as,
        m(c_id (props (h ! a)) \<mapsto> length h)
          ++ idMap (map (\<lambda>a. c_id (props (?h' ! a))) as) (length ?h'))"
    by (rule Cons.IH [OF lt])
  also have "\<dots> = (h @ map (\<lambda>a. spread_node (h ! a)) (a # as),
        m ++ idMap (map (\<lambda>a. c_id (props (h ! a))) (a # as)) (length h))"
    unfolding m1 m2 by (simp add: mp del: idMap.simps)
  finally show ?case .
qed

lemma idMap_range: "idMap ks l k = Some p \<Longrightarrow> l \<le> p \<and> p < l + length ks"
  by (induction ks arbitrary: l) (fastforce simp: map_add_Some_iff split: if_splits)+

lemma idMap_None: "k \<notin> set ks \<Longrightarrow> idMap ks l k = None"
  by (induction ks arbitrary: l) (auto simp: map_add_def)

lemma idMap_dom: "k \<in> set ks \<Longrightarrow> idMap ks l k \<noteq> None"
  by (induction ks arbitrary: l) (auto simp: map_add_def split: option.splits)

lemma idMap_nth: "distinct ks \<Longrightarrow> i < length ks \<Longrightarrow> idMap ks l (ks ! i) = Some (l + i)"
proof (induction ks arbitrary: l i)
  case Nil
  then show ?case by simp
next
  case (Cons k ks)
  show ?case
  proof (cases i)
    case 0
    from Cons.prems have "idMap ks (Suc l) k = None" by (intro idMap_None) simp
    with 0 show ?thesis by (simp add: map_add_def)
  next
    case (Suc j)
    with Cons.prems have "idMap ks (Suc l) (ks ! j) = Some (Suc l + j)"
      by (intro Cons.IH) auto
    with Suc show ?thesis by (simp add: map_add_def)
  qed
qed

lemma kidsOf_Nil: "kidsOf m [] x = []"
  by (simp add: kidsOf_def)

lemma kidsOf_Cons:
  "kidsOf m (c # cs) x =
     (if truthy (c_parentId c) \<and> m (the (c_parentId c)) = Some x
      then the (m (c_id c)) # kidsOf m cs x else kidsOf m cs x)"
  by (simp add: kidsOf_def)

lemma treePass_eq:
  assumes "\<forall>a\<in>set as. a < l0" and "l0 \<le> length h"
    and "\<forall>k p. m k = Some p \<longrightarrow> l0 \<le> p \<and> p < length h \<and> replies (h ! p) \<noteq> None"
    and "\<forall>a\<in>set as. m (c_id (props (h ! a))) \<noteq> None"
  shows "\<exists>h'. treePass m as (h, roots) =
            Some (h', roots @ map (\<lambda>c. the (m (c_id c)))
                        (filter (\<lambda>c. \<not> truthy (c_parentId c)) (map (\<lambda>a. props (h ! a)) as)))
          \<and> length h' = length h
          \<and> (\<forall>x<length h. h' ! x =
                (h ! x)\<lparr>replies := map_option (\<lambda>rs. rs @ kidsOf m (map (\<lambda>a. props (h ! a)) as) x)
                                     (replies (h ! x))\<rparr>)"
  using assms
proof (induction as arbitrary: h roots)
  case Nil
  then show ?case by (simp add: kidsOf_Nil option.map_ident)
next
  case (Cons a as)
  define c where "c = props (h ! a)"
  define cs where "cs = map (\<lambda>a. props (h ! a)) as"
  from Cons.prems(4) obtain node where node: "m (c_id c) = Some node"
    by (auto simp: c_def)
  have as_lt: "\<forall>a\<in>set as. a < l0" using Cons.prems(1) by simp
  have keys: "\<forall>a\<in>set as. m (c_id (props (h ! a))) \<noteq> None" using Cons.prems(4) by simp
  show ?case
  proof (cases "truthy (c_parentId c)")
    case False
    from Cons.IH [OF as_lt Cons.prems(2) Cons.prems(3) keys, of "roots @ [node]"]
    obtain h' where h': "treePass m as (h, roots @ [node]) =
            Some (h', (roots @ [node]) @ map (\<lambda>c. the (m (c_id c)))
                        (filter (\<lambda>c. \<not> truthy (c_parentId c)) cs))"
      "length h' = length h"
      "\<forall>x<length h. h' ! x =
          (h ! x)\<lparr>replies := map_option (\<lambda>rs. rs @ kidsOf m cs x) (replies (h ! x))\<rparr>"
      unfolding cs_def by blast
    have "treePass m (a # as) (h, roots) = treePass m as (h, roots @ [node])"
      using False node by (simp add: c_def [symmetric] Let_def)
    with h' False node show ?thesis
      by (simp add: c_def [symmetric] cs_def [symmetric] kidsOf_Cons)
  next
    case True
    show ?thesis
    proof (cases "m (the (c_parentId c))")
      case None
      from Cons.IH [OF as_lt Cons.prems(2) Cons.prems(3) keys, of roots]
      obtain h' where h': "treePass m as (h, roots) =
            Some (h', roots @ map (\<lambda>c. the (m (c_id c)))
                        (filter (\<lambda>c. \<not> truthy (c_parentId c)) cs))"
        "length h' = length h"
        "\<forall>x<length h. h' ! x =
            (h ! x)\<lparr>replies := map_option (\<lambda>rs. rs @ kidsOf m cs x) (replies (h ! x))\<rparr>"
        unfolding cs_def by blast
      have "treePass m (a # as) (h, roots) = treePass m as (h, roots)"
        using True None by (simp add: c_def [symmetric] Let_def)
      with h' True None show ?thesis
        by (simp add: c_def [symmetric] cs_def [symmetric] kidsOf_Cons)
    next
      case (Some p)
      with Cons.prems(3) have p: "l0 \<le> p" "p < length h" "replies (h ! p) \<noteq> None" by auto
      then obtain rs where rs: "replies (h ! p) = Some rs" by auto
      define h2 where "h2 = h[p := (h ! p)\<lparr>replies := Some (rs @ [node])\<rparr>]"
      have len2: "length h2 = length h" by (simp add: h2_def)
      have same: "\<forall>a\<in>set as. h2 ! a = h ! a"
        using as_lt p(1) by (auto simp: h2_def)
      then have cs2: "map (\<lambda>a. props (h2 ! a)) as = cs"
        unfolding cs_def by (auto intro!: map_cong)
      have inv2: "\<forall>k q. m k = Some q \<longrightarrow> l0 \<le> q \<and> q < length h2 \<and> replies (h2 ! q) \<noteq> None"
        using Cons.prems(3) p(2) by (auto simp: h2_def nth_list_update)
      have keys2: "\<forall>a\<in>set as. m (c_id (props (h2 ! a))) \<noteq> None"
        using keys same by simp
      have l2: "l0 \<le> length h2" using Cons.prems(2) len2 by simp
      from Cons.IH [OF as_lt l2 inv2 keys2, of roots]
      obtain h' where h': "treePass m as (h2, roots) =
            Some (h', roots @ map (\<lambda>c. the (m (c_id c)))
                        (filter (\<lambda>c. \<not> truthy (c_parentId c)) cs))"
        "length h' = length h"
        "\<forall>x<length h. h' ! x =
            (h2 ! x)\<lparr>replies := map_option (\<lambda>rs. rs @ kidsOf m cs x) (replies (h2 ! x))\<rparr>"
        unfolding cs2 len2 by blast
      have step: "treePass m (a # as) (h, roots) = treePass m as (h2, roots)"
        using True Some rs node by (simp add: c_def [symmetric] Let_def h2_def)
      have "h' ! x = (h ! x)\<lparr>replies := map_option (\<lambda>rs. rs @ kidsOf m (c # cs) x)
                                     (replies (h ! x))\<rparr>" if "x < length h" for x
      proof (cases "x = p")
        case True
        with h'(3) that rs p(2) have "h' ! x = (h ! p)\<lparr>replies := Some ((rs @ [node]) @ kidsOf m cs p)\<rparr>"
          by (simp add: h2_def)
        with True \<open>truthy (c_parentId c)\<close> Some node rs show ?thesis
          by (simp add: kidsOf_Cons)
      next
        case False
        with h'(3) that have "h' ! x = (h ! x)\<lparr>replies := map_option (\<lambda>rs. rs @ kidsOf m cs x)
                                     (replies (h ! x))\<rparr>"
          by (simp add: h2_def)
        with False Some show ?thesis by (simp add: kidsOf_Cons)
      qed
      with h'(1,2) step True show ?thesis
        by (simp add: c_def [symmetric] cs_def [symmetric])
    qed
  qed
qed

lemma kidsOf_outside: "\<forall>k. m k \<noteq> Some x \<Longrightarrow> kidsOf m cs x = []"
  by (simp add: kidsOf_def)

lemma buildCommentTree_eq:
  assumes valid: "\<forall>a\<in>set input. a < length h"
  defines "cs \<equiv> inputComments h input"
  defines "m \<equiv> idMap (map c_id (inputComments h input)) (length h)"
  shows "\<exists>h'. buildCommentTree h input =
            Some (h', map (\<lambda>c. the (m (c_id c))) (filter (\<lambda>c. \<not> truthy (c_parentId c)) cs))
          \<and> length h' = length h + length input
          \<and> (\<forall>x<length h. h' ! x = h ! x)
          \<and> (\<forall>i<length input. h' ! (length h + i) =
                \<lparr>props = cs ! i, replies = Some (kidsOf m cs (length h + i))\<rparr>)"
proof -
  define h1 where "h1 = h @ map (\<lambda>a. spread_node (h ! a)) input"
  have ks: "map (\<lambda>a. c_id (props (h ! a))) input = map c_id cs"
    by (simp add: cs_def inputComments_def)
  have mp: "mapPass input (h, Map.empty) = (h1, m)"
    using mapPass_eq [OF valid, of Map.empty] by (simp add: h1_def m_def ks cs_def)
  have len1: "length h1 = length h + length input" by (simp add: h1_def)
  have low: "h1 ! x = h ! x" if "x < length h" for x
    using that by (simp add: h1_def nth_append)
  have high: "h1 ! (length h + i) = \<lparr>props = cs ! i, replies = Some []\<rparr>" if "i < length input" for i
    using that by (simp add: h1_def nth_append spread_node_def cs_def inputComments_def)
  have cs1: "map (\<lambda>a. props (h1 ! a)) input = cs"
    unfolding cs_def inputComments_def using valid low by (auto intro!: map_cong)
  have rng: "length h \<le> p \<and> p < length h + length input" if "m k = Some p" for k p
    using idMap_range [of "map c_id cs" "length h" k p] that
    by (simp add: m_def cs_def inputComments_def)
  have inv: "\<forall>k p. m k = Some p \<longrightarrow> length h \<le> p \<and> p < length h1 \<and> replies (h1 ! p) \<noteq> None"
  proof (intro allI impI)
    fix k p assume "m k = Some p"
    from rng [OF this] have p: "length h \<le> p" "p < length h + length input" by auto
    then obtain i where i: "p = length h + i" "i < length input"
      by (metis add_diff_inverse_nat add_less_cancel_left not_less)
    with high [of i] p len1 show "length h \<le> p \<and> p < length h1 \<and> replies (h1 ! p) \<noteq> None"
      by simp
  qed
  have keys: "\<forall>a\<in>set input. m (c_id (props (h1 ! a))) \<noteq> None"
  proof
    fix a assume a: "a \<in> set input"
    with valid low have "props (h1 ! a) = props (h ! a)" by simp
    moreover from a have "c_id (props (h ! a)) \<in> set (map c_id cs)"
      by (auto simp: cs_def inputComments_def)
    ultimately show "m (c_id (props (h1 ! a))) \<noteq> None"
      unfolding m_def cs_def [symmetric] by (simp add: idMap_dom)
  qed
  have "length h \<le> length h1" by (simp add: len1)
  from treePass_eq [OF valid this inv keys, of "[]"]
  obtain h' where h': "treePass m input (h1, []) =
            Some (h', map (\<lambda>c. the (m (c_id c))) (filter (\<lambda>c. \<not> truthy (c_parentId c)) cs))"
    "length h' = length h1"
    "\<forall>x<length h1. h' ! x =
        (h1 ! x)\<lparr>replies := map_option (\<lambda>rs. rs @ kidsOf m cs x) (replies (h1 ! x))\<rparr>"
    unfolding cs1 by auto
  have b: "buildCommentTree h input = treePass m input (h1, [])"
    by (simp add: buildCommentTree_def mp)
  have lowf: "h' ! x = h ! x" if "x < length h" for x
  proof -
    have "\<forall>k. m k \<noteq> Some x" using rng that by fastforce
    then have "kidsOf m cs x = []" by (rule kidsOf_outside)
    with h'(3) that len1 low [OF that] show ?thesis by (simp add: option.map_ident)
  qed
  have highf: "h' ! (length h + i) = \<lparr>props = cs ! i, replies = Some (kidsOf m cs (length h + i))\<rparr>"
    if "i < length input" for i
    using h'(3) that len1 high [OF that] by simp
  show ?thesis
    using b h'(1,2) len1 lowf highf by auto
qed

lemma idMap_inj:
  assumes "distinct ks" "idMap ks l k = Some p" "idMap ks l k' = Some p"
  shows "k = k'"
proof -
  from assms(2) have "k \<in> set ks" using idMap_None [of k ks l] by auto
  then obtain i where i: "i < length ks" "ks ! i = k" by (auto simp: in_set_conv_nth)
  from assms(3) have "k' \<in> set ks" using idMap_None [of k' ks l] by auto
  then obtain j where j: "j < length ks" "ks ! j = k'" by (auto simp: in_set_conv_nth)
  from idMap_nth [OF assms(1) i(1), of l] i(2) assms(2) have "p = l + i" by simp
  moreover from idMap_nth [OF assms(1) j(1), of l] j(2) assms(3) have "p = l + j" by simp
  ultimately have "i = j" by simp
  with i j show ?thesis by simp
qed


subsection \<open>Depth levels of the input and of the forest\<close>

lemma level_subset: "set (level cs d) \<subseteq> set cs"
  by (cases d) auto

lemma filter_level: "filter (\<lambda>c. c \<in> set (level cs d)) cs = level cs d"
  by (cases d) (auto intro: filter_cong)

lemma distinct_level: "distinct cs \<Longrightarrow> distinct (level cs d)"
  by (cases d) auto

lemma level_unique:
  assumes "distinct (map c_id cs)"
  shows "c \<in> set (level cs d) \<Longrightarrow> c \<in> set (level cs d') \<Longrightarrow> d = d'"
proof (induction d arbitrary: c d')
  case 0
  then show ?case by (cases d') auto
next
  case (Suc e)
  from Suc.prems(1) obtain p1 where p1: "p1 \<in> set (level cs e)" "c_id p1 = the (c_parentId c)"
    and t: "truthy (c_parentId c)" by auto
  show ?case
  proof (cases d')
    case 0
    with Suc.prems(2) t show ?thesis by simp
  next
    case (Suc e')
    with Suc.prems(2) obtain p2 where p2: "p2 \<in> set (level cs e')" "c_id p2 = the (c_parentId c)"
      by auto
    from assms have "inj_on c_id (set cs)" by (simp add: distinct_map)
    moreover from p1 p2 level_subset have "p1 \<in> set cs" "p2 \<in> set cs" by auto
    ultimately have "p1 = p2" using p1(2) p2(2) by (simp add: inj_on_def)
    with p1(1) p2(1) have "e = e'" by (intro Suc.IH) auto
    with Suc show ?thesis by simp
  qed
qed

lemma level_down: "level cs (Suc d) \<noteq> [] \<Longrightarrow> level cs d \<noteq> []"
proof -
  assume "level cs (Suc d) \<noteq> []"
  then obtain c where "c \<in> set (level cs (Suc d))"
    by (cases "level cs (Suc d)") (auto simp del: level.simps)
  then have "the (c_parentId c) \<in> c_id ` set (level cs d)" by simp
  then show ?thesis by auto
qed

lemma level_down_all: "level cs d \<noteq> [] \<Longrightarrow> e \<le> d \<Longrightarrow> level cs e \<noteq> []"
proof (induction d)
  case 0
  then show ?case by simp
next
  case (Suc d)
  show ?case
  proof (cases "e = Suc d")
    case True
    with Suc.prems show ?thesis by simp
  next
    case False
    with Suc.prems have "e \<le> d" by simp
    moreover from Suc.prems(1) have "level cs d \<noteq> []" by (rule level_down)
    ultimately show ?thesis by (intro Suc.IH)
  qed
qed

lemma length_filter_disj:
  "\<forall>x\<in>set xs. \<not> (A x \<and> B x) \<Longrightarrow>
   length (filter (\<lambda>x. A x \<or> B x) xs) = length (filter A xs) + length (filter B xs)"
  by (induction xs) auto

lemma count_levels:
  assumes "distinct (map c_id cs)"
  shows "length (filter (\<lambda>c. \<exists>d<k. c \<in> set (level cs d)) cs) = (\<Sum>d<k. length (level cs d))"
proof (induction k)
  case 0
  show ?case by simp
next
  case (Suc k)
  have disj: "\<forall>c\<in>set cs. \<not> ((\<exists>d<k. c \<in> set (level cs d)) \<and> c \<in> set (level cs k))"
    using level_unique [OF assms] by blast
  have "(\<lambda>c. \<exists>d<Suc k. c \<in> set (level cs d))
          = (\<lambda>c. (\<exists>d<k. c \<in> set (level cs d)) \<or> c \<in> set (level cs k))"
    by (auto simp: less_Suc_eq)
  then have "length (filter (\<lambda>c. \<exists>d<Suc k. c \<in> set (level cs d)) cs)
      = length (filter (\<lambda>c. \<exists>d<k. c \<in> set (level cs d)) cs)
        + length (filter (\<lambda>c. c \<in> set (level cs k)) cs)"
    using length_filter_disj [OF disj] by simp
  with Suc.IH show ?case by (simp add: filter_level)
qed

lemma level_length_empty:
  assumes "distinct (map c_id cs)"
  shows "level cs (length cs) = []"
proof (rule ccontr)
  assume ne: "level cs (length cs) \<noteq> []"
  have "1 \<le> length (level cs d)" if "d < Suc (length cs)" for d
  proof -
    from that have "d \<le> length cs" by simp
    with ne have "level cs d \<noteq> []" by (rule level_down_all)
    then show ?thesis by (cases "level cs d") auto
  qed
  then have "(\<Sum>d<Suc (length cs). 1) \<le> (\<Sum>d<Suc (length cs). length (level cs d))"
    by (intro sum_mono) auto
  then have "Suc (length cs) \<le> (\<Sum>d<Suc (length cs). length (level cs d))" by simp
  also have "\<dots> = length (filter (\<lambda>c. \<exists>d<Suc (length cs). c \<in> set (level cs d)) cs)"
    by (rule count_levels [OF assms, symmetric])
  also have "\<dots> \<le> length cs" by (rule length_filter_le)
  finally show False by simp
qed

lemma count_attached:
  "distinct (map c_id cs) \<Longrightarrow>
   length (filter (attached cs) cs) = (\<Sum>d<length cs. length (level cs d))"
proof -
  assume d: "distinct (map c_id cs)"
  have "attached cs = (\<lambda>c. \<exists>d<length cs. c \<in> set (level cs d))"
    by (rule ext) (auto simp: attached_def list_ex_iff)
  then show ?thesis using count_levels [OF d, of "length cs"] by simp
qed

lemma funpow_nextLevel_Nil: "(nextLevel h ^^ d) [] = []"
  by (induction d) (simp_all add: nextLevel_def)

lemma countReachable_levels:
  "countReachable f h ps =
     (if (nextLevel h ^^ f) ps = [] then Some (\<Sum>d<f. length ((nextLevel h ^^ d) ps)) else None)"
proof (induction f arbitrary: ps)
  case 0
  show ?case by (cases ps) simp_all
next
  case (Suc f)
  show ?case
  proof (cases ps)
    case Nil
    then show ?thesis by (simp add: funpow_nextLevel_Nil del: funpow.simps)
  next
    case (Cons a as)
    have shift: "(\<Sum>d<Suc f. length ((nextLevel h ^^ d) ps))
                  = length ps + (\<Sum>d<f. length ((nextLevel h ^^ d) (nextLevel h ps)))"
      by (simp add: sum.lessThan_Suc_shift funpow_swap1 del: funpow.simps sum.lessThan_Suc)
        (simp add: funpow_swap1)
    have "countReachable (Suc f) h ps
            = map_option (\<lambda>k. length ps + k) (countReachable f h (nextLevel h ps))"
      unfolding Cons countReachable.simps ..
    also have "\<dots> = (if (nextLevel h ^^ f) (nextLevel h ps) = []
                       then Some (length ps + (\<Sum>d<f. length ((nextLevel h ^^ d) (nextLevel h ps))))
                       else None)"
      by (simp add: Suc.IH)
    also have "\<dots> = (if (nextLevel h ^^ Suc f) ps = []
                       then Some (\<Sum>d<Suc f. length ((nextLevel h ^^ d) ps)) else None)"
      unfolding shift by (simp add: funpow_swap1)
    finally show ?thesis .
  qed
qed

lemma distinct_concat_map:
  "distinct ps \<Longrightarrow> (\<forall>p\<in>set ps. distinct (K p)) \<Longrightarrow>
   (\<forall>p\<in>set ps. \<forall>q\<in>set ps. p \<noteq> q \<longrightarrow> set (K p) \<inter> set (K q) = {}) \<Longrightarrow>
   distinct (concat (map K ps))"
  by (induction ps) fastforce+

lemma levels_correspond:
  fixes cs :: "comment list" and l0 :: nat and h' :: heap
  defines "m \<equiv> idMap (map c_id cs) l0"
  defines "nodeOf \<equiv> (\<lambda>c. the (m (c_id c)))"
  assumes d: "distinct (map c_id cs)"
    and roots: "roots = map nodeOf (filter (\<lambda>c. \<not> truthy (c_parentId c)) cs)"
    and nodes: "\<forall>i<length cs. replies (h' ! (l0 + i)) = Some (kidsOf m cs (l0 + i))"
  shows "length ((nextLevel h' ^^ k) roots) = length (level cs k)"
proof -
  have dc: "distinct cs" using d by (simp add: distinct_map)
  have inj_id: "inj_on c_id (set cs)" using d by (simp add: distinct_map)
  have node_nth: "m (c_id (cs ! i)) = Some (l0 + i)" if "i < length cs" for i
    using idMap_nth [of "map c_id cs" i l0] d that by (simp add: m_def)
  have node_in: "\<exists>i<length cs. c = cs ! i \<and> nodeOf c = l0 + i \<and> m (c_id c) = Some (l0 + i)"
    if "c \<in> set cs" for c
  proof -
    from that obtain i where "i < length cs" "cs ! i = c" by (auto simp: in_set_conv_nth)
    with node_nth [of i] show ?thesis by (auto simp: nodeOf_def)
  qed
  have inj_node: "inj_on nodeOf (set cs)"
  proof (rule inj_onI)
    fix x y assume "x \<in> set cs" "y \<in> set cs" "nodeOf x = nodeOf y"
    with node_in [of x] node_in [of y] show "x = y" by auto
  qed
  have kids: "repliesOf h' (nodeOf c') =
      map nodeOf (filter (\<lambda>c. truthy (c_parentId c) \<and> the (c_parentId c) = c_id c') cs)"
    if c': "c' \<in> set cs" for c'
  proof -
    from node_in [OF c'] obtain i where i: "i < length cs" "nodeOf c' = l0 + i"
      "m (c_id c') = Some (l0 + i)" by auto
    have eq: "(m k = Some (l0 + i)) = (k = c_id c')" for k
      using idMap_inj [OF _ _ i(3) [unfolded m_def], of k] d i(3) by (auto simp: m_def)
    from nodes i have "repliesOf h' (nodeOf c') = kidsOf m cs (l0 + i)"
      by (simp add: repliesOf_def)
    also have "\<dots> = map nodeOf
        (filter (\<lambda>c. truthy (c_parentId c) \<and> the (c_parentId c) = c_id c') cs)"
      by (simp add: kidsOf_def eq nodeOf_def)
    finally show ?thesis .
  qed
  have lv: "set ((nextLevel h' ^^ k) roots) = nodeOf ` set (level cs k)
         \<and> distinct ((nextLevel h' ^^ k) roots)"
  proof (induction k)
    case 0
    have "distinct (map nodeOf (filter (\<lambda>c. \<not> truthy (c_parentId c)) cs))"
      using dc inj_node by (auto simp: distinct_map intro: inj_on_subset)
    then show ?case by (simp add: roots)
  next
    case (Suc k)
    let ?ps = "(nextLevel h' ^^ k) roots"
    let ?K = "\<lambda>c'. filter (\<lambda>c. truthy (c_parentId c) \<and> the (c_parentId c) = c_id c') cs"
    from Suc.IH have ps: "set ?ps = nodeOf ` set (level cs k)" and dps: "distinct ?ps" by auto
    have sub: "set (level cs k) \<subseteq> set cs" by (rule level_subset)
    have next_eq: "(nextLevel h' ^^ Suc k) roots = concat (map (repliesOf h') ?ps)"
      by (simp add: nextLevel_def)
    have set_eq: "set (concat (map (repliesOf h') ?ps)) = nodeOf ` set (level cs (Suc k))"
    proof -
      have "set (concat (map (repliesOf h') ?ps)) = (\<Union>p\<in>set ?ps. set (repliesOf h' p))"
        by simp
      also have "\<dots> = (\<Union>c'\<in>set (level cs k). set (repliesOf h' (nodeOf c')))"
        by (simp add: ps)
      also have "\<dots> = (\<Union>c'\<in>set (level cs k). nodeOf ` set (?K c'))"
      proof (rule SUP_cong [OF refl])
        fix c' assume "c' \<in> set (level cs k)"
        with sub have "c' \<in> set cs" by auto
        from kids [OF this] show "set (repliesOf h' (nodeOf c')) = nodeOf ` set (?K c')"
          by (simp only: set_map)
      qed
      also have "\<dots> = nodeOf ` set (level cs (Suc k))"
        by auto
      finally show ?thesis .
    qed
    have dist: "distinct (concat (map (repliesOf h') ?ps))"
    proof (rule distinct_concat_map [OF dps], intro ballI)
      fix p assume "p \<in> set ?ps"
      with ps obtain c' where c': "c' \<in> set (level cs k)" "p = nodeOf c'" by auto
      with sub have "c' \<in> set cs" by auto
      from kids [OF this] c'(2) have "repliesOf h' p = map nodeOf (?K c')" by simp
      moreover have "distinct (map nodeOf (?K c'))"
        using dc inj_node by (auto simp: distinct_map intro: inj_on_subset)
      ultimately show "distinct (repliesOf h' p)" by simp
    next
      show "\<forall>p\<in>set ?ps. \<forall>q\<in>set ?ps. p \<noteq> q \<longrightarrow> set (repliesOf h' p) \<inter> set (repliesOf h' q) = {}"
      proof (intro ballI impI)
        fix p q assume pq: "p \<in> set ?ps" "q \<in> set ?ps" "p \<noteq> q"
        from pq ps obtain c1 c2 where c: "c1 \<in> set (level cs k)" "p = nodeOf c1"
          "c2 \<in> set (level cs k)" "q = nodeOf c2" by auto
        with sub have in_cs: "c1 \<in> set cs" "c2 \<in> set cs" by auto
        from pq(3) c have "c1 \<noteq> c2" by auto
        with in_cs inj_id have ne: "c_id c1 \<noteq> c_id c2" by (auto simp: inj_on_def)
        have "set (map nodeOf (?K c1)) \<inter> set (map nodeOf (?K c2)) = {}"
        proof (rule ccontr)
          assume "set (map nodeOf (?K c1)) \<inter> set (map nodeOf (?K c2)) \<noteq> {}"
          then obtain x y where xy: "x \<in> set (?K c1)" "y \<in> set (?K c2)" "nodeOf x = nodeOf y"
            by auto
          then have "x \<in> set cs" "y \<in> set cs" by auto
          with inj_node xy(3) have "x = y" by (auto simp: inj_on_def)
          with xy(1,2) ne show False by auto
        qed
        with kids [OF in_cs(1)] kids [OF in_cs(2)] c show
          "set (repliesOf h' p) \<inter> set (repliesOf h' q) = {}" by simp
      qed
    qed
    from set_eq dist show ?case unfolding next_eq by simp
  qed
  have "inj_on nodeOf (set (level cs k))"
    using inj_node level_subset by (rule inj_on_subset)
  then have "card (nodeOf ` set (level cs k)) = length (level cs k)"
    using distinct_level [OF dc, of k] by (simp add: card_image distinct_card)
  with lv show ?thesis by (metis distinct_card)
qed

lemma orphan_excluded:
  fixes cs :: "comment list" and l0 :: nat
  defines "m \<equiv> idMap (map c_id cs) l0"
  assumes d: "distinct (map c_id cs)" and i: "i < length cs"
    and orphan: "\<not> parentPresent cs (cs ! i)"
  shows "l0 + i \<notin> set (map (\<lambda>c. the (m (c_id c))) (filter (\<lambda>c. \<not> truthy (c_parentId c)) cs))
         \<and> l0 + i \<notin> set (kidsOf m cs x)"
proof -
  from orphan have t: "truthy (c_parentId (cs ! i))"
    and absent: "the (c_parentId (cs ! i)) \<notin> set (map c_id cs)"
    by (auto simp: parentPresent_def)
  have is_i: "c = cs ! i" if "c \<in> set cs" "the (m (c_id c)) = l0 + i" for c
  proof -
    from that(1) obtain j where j: "j < length cs" "cs ! j = c" by (auto simp: in_set_conv_nth)
    with idMap_nth [of "map c_id cs" j l0] d have "m (c_id c) = Some (l0 + j)"
      by (auto simp: m_def)
    with that(2) have "j = i" by simp
    with j show ?thesis by simp
  qed
  have "m (the (c_parentId (cs ! i))) = None"
    unfolding m_def using absent by (rule idMap_None)
  with t is_i show ?thesis
    by (auto simp: kidsOf_def)
qed

lemma tree_count:
  assumes valid: "\<forall>a\<in>set input. a < length h"
    and d: "distinct (map c_id (inputComments h input))"
  shows "\<exists>h' roots. buildCommentTree h input = Some (h', roots)
      \<and> countReachable (length input) h' roots
          = Some (length (filter (attached (inputComments h input)) (inputComments h input)))
      \<and> (\<forall>i<length input.
            \<not> parentPresent (inputComments h input) (inputComments h input ! i) \<longrightarrow>
            length h + i \<notin> set roots
            \<and> (\<forall>j<length input. length h + i \<notin> set (repliesOf h' (length h + j))))"
proof -
  define cs where "cs = inputComments h input"
  define m where "m = idMap (map c_id cs) (length h)"
  define roots where
    "roots = map (\<lambda>c. the (m (c_id c))) (filter (\<lambda>c. \<not> truthy (c_parentId c)) cs)"
  have n: "length cs = length input" by (simp add: cs_def inputComments_def)
  from buildCommentTree_eq [OF valid] obtain h' where
    b: "buildCommentTree h input = Some (h', roots)"
    and nodes: "\<forall>i<length input. h' ! (length h + i) =
                \<lparr>props = cs ! i, replies = Some (kidsOf m cs (length h + i))\<rparr>"
    unfolding cs_def [symmetric] m_def [symmetric] roots_def [symmetric] by blast
  have reps: "\<forall>i<length cs. replies (h' ! (length h + i)) = Some (kidsOf m cs (length h + i))"
    using nodes n by simp
  have len: "length ((nextLevel h' ^^ k) roots) = length (level cs k)" for k
    using levels_correspond [OF d [folded cs_def] _ reps [unfolded m_def], of roots k]
    by (simp add: roots_def m_def)
  have "level cs (length cs) = []"
    using d [folded cs_def] by (rule level_length_empty)
  with len [of "length cs"] have empty: "(nextLevel h' ^^ length input) roots = []"
    by (simp add: n)
  have "countReachable (length input) h' roots
          = Some (\<Sum>k<length input. length ((nextLevel h' ^^ k) roots))"
    by (simp add: countReachable_levels empty)
  also have "\<dots> = Some (\<Sum>k<length cs. length (level cs k))"
    by (simp add: len n)
  also have "\<dots> = Some (length (filter (attached cs) cs))"
    using count_attached [OF d [folded cs_def]] by simp
  finally have count: "countReachable (length input) h' roots
      = Some (length (filter (attached cs) cs))" .
  have excl: "length h + i \<notin> set roots
      \<and> (\<forall>j<length input. length h + i \<notin> set (repliesOf h' (length h + j)))"
    if "i < length input" "\<not> parentPresent cs (cs ! i)" for i
  proof -
    from that n have i: "i < length cs" by simp
    from orphan_excluded [OF d [folded cs_def] i that(2), of "length h"]
    have r: "length h + i \<notin> set roots"
      and k: "length h + i \<notin> set (kidsOf m cs x)" for x
      by (auto simp: roots_def m_def)
    have "repliesOf h' (length h + j) = kidsOf m cs (length h + j)" if "j < length input" for j
      using nodes that by (simp add: repliesOf_def)
    with r k show ?thesis by simp
  qed
  from b count excl show ?thesis unfolding cs_def by blast
qed

lemma tree_frame:
  assumes valid: "\<forall>a\<in>set input. a < length h"
  shows "\<exists>h' roots. buildCommentTree h input = Some (h', roots)
      \<and> length h' = length h + length input
      \<and> take (length h) h' = h
      \<and> (\<forall>i<length input. props (h' ! (length h + i)) = props (h ! (input ! i))
            \<and> replies (h' ! (length h + i)) \<noteq> None
            \<and> (\<forall>r\<in>set (repliesOf h' (length h + i)). length h \<le> r \<and> r < length h'))
      \<and> (\<forall>r\<in>set roots. length h \<le> r \<and> r < length h')"
proof -
  define cs where "cs = inputComments h input"
  define m where "m = idMap (map c_id cs) (length h)"
  define roots where
    "roots = map (\<lambda>c. the (m (c_id c))) (filter (\<lambda>c. \<not> truthy (c_parentId c)) cs)"
  from buildCommentTree_eq [OF valid] obtain h' where
    b: "buildCommentTree h input = Some (h', roots)"
    and len: "length h' = length h + length input"
    and low: "\<forall>x<length h. h' ! x = h ! x"
    and nodes: "\<forall>i<length input. h' ! (length h + i) =
                \<lparr>props = cs ! i, replies = Some (kidsOf m cs (length h + i))\<rparr>"
    unfolding cs_def [symmetric] m_def [symmetric] roots_def [symmetric] by blast
  have tk: "take (length h) h' = h"
    using len low by (intro nth_equalityI) auto
  have rng: "length h \<le> the (m (c_id c)) \<and> the (m (c_id c)) < length h'" if "c \<in> set cs" for c
  proof -
    from that have "c_id c \<in> set (map c_id cs)" by simp
    then obtain p where p: "m (c_id c) = Some p"
      using idMap_dom [of "c_id c" "map c_id cs" "length h"] by (auto simp: m_def)
    from idMap_range [OF p [unfolded m_def]] p len show ?thesis
      by (simp add: cs_def inputComments_def)
  qed
  have r1: "\<forall>r\<in>set roots. length h \<le> r \<and> r < length h'"
    using rng by (auto simp: roots_def)
  have r2: "\<forall>r\<in>set (kidsOf m cs x). length h \<le> r \<and> r < length h'" for x
    using rng by (auto simp: kidsOf_def)
  have "props (h' ! (length h + i)) = props (h ! (input ! i))
            \<and> replies (h' ! (length h + i)) \<noteq> None
            \<and> (\<forall>r\<in>set (repliesOf h' (length h + i)). length h \<le> r \<and> r < length h')"
    if "i < length input" for i
    using nodes that r2 [of "length h + i"] by (simp add: repliesOf_def cs_def inputComments_def)
  with b len tk r1 show ?thesis by blast
qed

lemmas tree_defs = buildCommentTree_def ex_page_def ex_thread_heap_def ex_thread_def ex_comment_def
  spread_node_def Let_def inputComments_def repliesOf_def nextLevel_def

text \<open>
  C10. For an array of addresses of existing objects, \<open>buildCommentTree\<close> returns, and
  every object that was in the heap before the call, the comments of the input among
  them, is unchanged after it; the array is only iterated. The nodes are new objects,
  one for each comment of the input and in its order, each with the properties of its
  comment and a \<open>replies\<close> array; the roots and the entries of those arrays are
  addresses of the new nodes only.
\<close>

theorem buildCommentTree_leaves_input_unchanged:
  "(\<forall>a\<in>set input. a < length h) \<longrightarrow>
   (\<exists>h' roots. buildCommentTree h input = Some (h', roots)
      \<and> length h' = length h + length input
      \<and> take (length h) h' = h
      \<and> (\<forall>i<length input. props (h' ! (length h + i)) = props (h ! (input ! i))
            \<and> replies (h' ! (length h + i)) \<noteq> None
            \<and> (\<forall>r\<in>set (repliesOf h' (length h + i)). length h \<le> r \<and> r < length h'))
      \<and> (\<forall>r\<in>set roots. length h \<le> r \<and> r < length h'))"
  using tree_frame [of input h] by blast

theorem buildCommentTree_leaves_input_unchanged_witness:
  "list_all (\<lambda>a. a < length ex_thread_heap) [0, 1, 2]
   \<and> (\<exists>h' roots. buildCommentTree ex_thread_heap [0, 1, 2] = Some (h', roots)
         \<and> length h' = 6 \<and> take 3 h' = ex_thread_heap)
   \<and> buildCommentTree ex_thread_heap [0, 1, 2] =
       Some (ex_thread_heap @
               [\<lparr>props = ex_comment ''A'' None, replies = Some [4]\<rparr>,
                \<lparr>props = ex_comment ''B'' (Some ''A''), replies = Some [5]\<rparr>,
                \<lparr>props = ex_comment ''C'' (Some ''B''), replies = Some []\<rparr>],
             [3])"
proof -
  have valid: "\<forall>a\<in>set [0, 1, 2]. a < length ex_thread_heap"
    by (simp add: ex_thread_heap_def ex_thread_def)
  have len: "length ex_thread_heap = 3"
    by (simp add: ex_thread_heap_def ex_thread_def)
  from buildCommentTree_leaves_input_unchanged [of "[0, 1, 2]" ex_thread_heap] valid
  obtain h' roots where "buildCommentTree ex_thread_heap [0, 1, 2] = Some (h', roots)"
    "length h' = length ex_thread_heap + length [0, 1, 2 :: nat]"
    "take (length ex_thread_heap) h' = ex_thread_heap"
    by blast
  then have frame: "\<exists>h' roots. buildCommentTree ex_thread_heap [0, 1, 2] = Some (h', roots)
         \<and> length h' = 6 \<and> take 3 h' = ex_thread_heap"
    using len by auto
  have built: "buildCommentTree ex_thread_heap [0, 1, 2] =
       Some (ex_thread_heap @
               [\<lparr>props = ex_comment ''A'' None, replies = Some [4]\<rparr>,
                \<lparr>props = ex_comment ''B'' (Some ''A''), replies = Some [5]\<rparr>,
                \<lparr>props = ex_comment ''C'' (Some ''B''), replies = Some []\<rparr>],
             [3])"
    by (simp add: tree_defs)
  from valid frame built show ?thesis
    by (simp only: list_all_iff simp_thms)
qed

text \<open>
  C5, as the claim states it, fails: on a page that holds the reply \<open>C\<close> and its parent
  \<open>B\<close> but not \<open>B\<close>'s parent \<open>A\<close>, the forest is empty (no comment is reachable from a
  root), while one comment of the input, \<open>C\<close>, has its parent in the input.
\<close>

theorem orphan_chain_not_counted:
  "map_option (\<lambda>(h', roots). (roots, countReachable 2 h' roots)) (buildCommentTree ex_page [0, 1])
     = Some ([], Some 0)
   \<and> length (filter (parentPresent (inputComments ex_page [0, 1])) (inputComments ex_page [0, 1])) = 1"
  by (simp add: tree_defs parentPresent_def)

text \<open>
  C5, amended. For an input with distinct identifiers, the number of comments
  reachable from the returned roots is the number of attached comments of the input:
  those whose chain of parents stays in the input and ends at a comment without a
  parent. The fuel of the count, the length of the input, is enough. The node of a
  comment whose parent identifier is not in the input is neither a root nor a reply
  of any node, so the comment is left out, and so are the comments below it.
\<close>

theorem tree_counts_attached_comments:
  "(\<forall>a\<in>set input. a < length h) \<longrightarrow> distinct (map c_id (inputComments h input)) \<longrightarrow>
   (\<exists>h' roots. buildCommentTree h input = Some (h', roots)
      \<and> countReachable (length input) h' roots
          = Some (length (filter (attached (inputComments h input)) (inputComments h input)))
      \<and> (\<forall>i<length input.
            \<not> parentPresent (inputComments h input) (inputComments h input ! i) \<longrightarrow>
            length h + i \<notin> set roots
            \<and> (\<forall>j<length input. length h + i \<notin> set (repliesOf h' (length h + j)))))"
  using tree_count [of input h] by blast

theorem tree_counts_attached_comments_witness:
  "list_all (\<lambda>a. a < length ex_thread_heap) [0, 1, 2]
   \<and> distinct (map c_id (inputComments ex_thread_heap [0, 1, 2]))
   \<and> length (filter (attached (inputComments ex_thread_heap [0, 1, 2]))
               (inputComments ex_thread_heap [0, 1, 2])) = 3
   \<and> (\<exists>h' roots. buildCommentTree ex_thread_heap [0, 1, 2] = Some (h', roots)
         \<and> countReachable 3 h' roots = Some 3)
   \<and> map_option (\<lambda>(h', roots). (roots, map (toTree 3 h') roots))
        (buildCommentTree ex_thread_heap [0, 1, 2])
       = Some ([3],
           [Some (Node (ex_comment ''A'' None)
              [Node (ex_comment ''B'' (Some ''A'')) [Node (ex_comment ''C'' (Some ''B'')) []]])])"
proof -
  have valid: "\<forall>a\<in>set [0, 1, 2]. a < length ex_thread_heap"
    by (simp add: ex_thread_heap_def ex_thread_def)
  have dist: "distinct (map c_id (inputComments ex_thread_heap [0, 1, 2]))"
    by (simp add: tree_defs)
  have att: "length (filter (attached (inputComments ex_thread_heap [0, 1, 2]))
               (inputComments ex_thread_heap [0, 1, 2])) = 3"
    by (simp add: tree_defs attached_def)
  from tree_counts_attached_comments [of "[0, 1, 2]" ex_thread_heap] valid dist
  obtain h' roots where "buildCommentTree ex_thread_heap [0, 1, 2] = Some (h', roots)"
    "countReachable (length [0, 1, 2 :: nat]) h' roots
       = Some (length (filter (attached (inputComments ex_thread_heap [0, 1, 2]))
               (inputComments ex_thread_heap [0, 1, 2])))"
    by blast
  then have built: "\<exists>h' roots. buildCommentTree ex_thread_heap [0, 1, 2] = Some (h', roots)
         \<and> countReachable 3 h' roots = Some 3"
    using att by (auto simp: numeral_3_eq_3)
  have tree: "map_option (\<lambda>(h', roots). (roots, map (toTree 3 h') roots))
        (buildCommentTree ex_thread_heap [0, 1, 2])
       = Some ([3],
           [Some (Node (ex_comment ''A'' None)
              [Node (ex_comment ''B'' (Some ''A'')) [Node (ex_comment ''C'' (Some ''B'')) []]])])"
    by (simp add: tree_defs numeral_3_eq_3)
  from valid dist att built tree show ?thesis
    by (simp only: list_all_iff simp_thms)
qed

end
